theory Spec2Isabelle
  imports Complex_Main
begin

section \<open>Arrays\<close>

text \<open>
  A one-dimensional float array is a list of reals, a two-dimensional array is the list
  of its rows (so an array without rows has no columns either).  All arithmetic is exact
  real arithmetic.  Where the program divides by a float zero, or raises, the model says
  so explicitly: a raised exception is a value \<open>Inl e\<close>, and the result of a float
  division is a value of \<open>npfloat\<close>, which has the infinities and NaN.
\<close>

type_synonym vec = "real list"
type_synonym mat = "real list list"

text \<open>
  The exceptions the program can raise.  \<open>NonFinite\<close> is not an exception: it marks the
  places where numpy divides an array by a float zero and carries on with \<^verbatim>\<open>inf\<close> or
  \<^verbatim>\<open>nan\<close> entries (emitting a warning only), which a matrix of reals cannot hold; the
  model stops following the program there.
\<close>

datatype error =
    ValueError | LinAlgError | KeyError | IndexError | AxisError | TypeError
  | AttributeError | ZeroDivisionError | NameError | NonFinite

datatype npfloat = Fin real | PInf | NInf | NaN

definition bind_err :: "error + 'a \<Rightarrow> ('a \<Rightarrow> error + 'b) \<Rightarrow> error + 'b" where
  "bind_err m f = (case m of Inl e \<Rightarrow> Inl e | Inr x \<Rightarrow> f x)"

definition nrows :: "mat \<Rightarrow> nat" where
  "nrows A = length A"

definition ncols :: "mat \<Rightarrow> nat" where
  "ncols A = (case A of [] \<Rightarrow> 0 | r # _ \<Rightarrow> length r)"

definition is_mat :: "nat \<Rightarrow> nat \<Rightarrow> mat \<Rightarrow> bool" where
  "is_mat r c A \<longleftrightarrow> length A = r \<and> list_all (\<lambda>row. length row = c) A"

definition mk_mat :: "nat \<Rightarrow> nat \<Rightarrow> (nat \<Rightarrow> nat \<Rightarrow> real) \<Rightarrow> mat" where
  "mk_mat r c f = map (\<lambda>i. map (f i) [0..<c]) [0..<r]"

definition zeros :: "nat \<Rightarrow> nat \<Rightarrow> mat" where
  "zeros r c = replicate r (replicate c 0)"

definition eye :: "nat \<Rightarrow> mat" where
  "eye n = mk_mat n n (\<lambda>i j. if i = j then 1 else 0)"

text \<open>\<^verbatim>\<open>A.T\<close>, \<^verbatim>\<open>c * A\<close>, \<^verbatim>\<open>A / c\<close> (for \<open>c \<noteq> 0\<close>), \<^verbatim>\<open>A ** 2\<close>, \<^verbatim>\<open>A.sum()\<close>
  and \<^verbatim>\<open>np.trace(A)\<close>.\<close>

definition transpose_m :: "mat \<Rightarrow> mat" where
  "transpose_m A = mk_mat (ncols A) (nrows A) (\<lambda>i j. A ! j ! i)"

definition scale :: "real \<Rightarrow> mat \<Rightarrow> mat" where
  "scale c A = map (map (\<lambda>a. c * a)) A"

definition div_by :: "mat \<Rightarrow> real \<Rightarrow> mat" where
  "div_by A c = map (map (\<lambda>a. a / c)) A"

text \<open>\<^verbatim>\<open>A / c\<close> for a float \<open>c\<close> that may be zero: only an array without entries
  survives a zero divisor.\<close>

definition np_div_scalar :: "mat \<Rightarrow> real \<Rightarrow> error + mat" where
  "np_div_scalar A c = (if c = 0 \<and> concat A \<noteq> [] then Inl NonFinite else Inr (div_by A c))"

definition square :: "mat \<Rightarrow> mat" where
  "square A = map (map (\<lambda>a. a * a)) A"

definition msum :: "mat \<Rightarrow> real" where
  "msum A = sum_list (map sum_list A)"

definition trace :: "mat \<Rightarrow> real" where
  "trace A = sum_list (map (\<lambda>i. A ! i ! i) [0..<min (nrows A) (ncols A)])"

text \<open>
  \<^verbatim>\<open>np.dot(A, B)\<close> of two-dimensional arrays raises \<^verbatim>\<open>ValueError\<close> unless the inner
  dimensions agree.
\<close>

definition dot :: "mat \<Rightarrow> mat \<Rightarrow> mat" where
  "dot A B = mk_mat (nrows A) (ncols B)
     (\<lambda>i j. sum_list (map (\<lambda>k. A ! i ! k * B ! k ! j) [0..<ncols A]))"

definition np_dot :: "mat \<Rightarrow> mat \<Rightarrow> error + mat" where
  "np_dot A B = (if ncols A = nrows B then Inr (dot A B) else Inl ValueError)"

text \<open>
  Elementwise binary operations broadcast: two dimensions are compatible when they are
  equal or one of them is 1, and a dimension of 1 is stretched.  A one-dimensional
  operand is a matrix of one row.  The in-place forms (\<^verbatim>\<open>+=\<close>) raise when the result
  does not have the shape of the left operand.
\<close>

definition bc_dim :: "nat \<Rightarrow> nat \<Rightarrow> nat option" where
  "bc_dim a b = (if a = b then Some a else if a = 1 then Some b
                 else if b = 1 then Some a else None)"

definition bc_get :: "mat \<Rightarrow> nat \<Rightarrow> nat \<Rightarrow> real" where
  "bc_get A i j = A ! (if nrows A = 1 then 0 else i) ! (if ncols A = 1 then 0 else j)"

definition np_binop :: "(real \<Rightarrow> real \<Rightarrow> real) \<Rightarrow> mat \<Rightarrow> mat \<Rightarrow> error + mat" where
  "np_binop f A B =
     (case bc_dim (nrows A) (nrows B) of
        None \<Rightarrow> Inl ValueError
      | Some r \<Rightarrow>
          (case bc_dim (ncols A) (ncols B) of
             None \<Rightarrow> Inl ValueError
           | Some c \<Rightarrow> Inr (mk_mat r c (\<lambda>i j. f (bc_get A i j) (bc_get B i j)))))"

definition np_add :: "mat \<Rightarrow> mat \<Rightarrow> error + mat" where
  "np_add = np_binop (\<lambda>a b. a + b)"

definition np_sub :: "mat \<Rightarrow> mat \<Rightarrow> error + mat" where
  "np_sub = np_binop (\<lambda>a b. a - b)"

definition np_mul :: "mat \<Rightarrow> mat \<Rightarrow> error + mat" where
  "np_mul = np_binop (\<lambda>a b. a * b)"

definition np_iadd :: "mat \<Rightarrow> mat \<Rightarrow> error + mat" where
  "np_iadd A B = bind_err (np_add A B)
     (\<lambda>C. if nrows C = nrows A \<and> ncols C = ncols A then Inr C else Inl ValueError)"

text \<open>
  Float division \<^verbatim>\<open>a / b\<close> of numpy scalars never raises: a zero divisor gives an
  infinity or NaN.  \<^verbatim>\<open>math.sqrt\<close> passes \<^verbatim>\<open>inf\<close> and \<^verbatim>\<open>nan\<close> through and raises on
  a negative argument.  A comparison with NaN is false.
\<close>

definition np_div :: "real \<Rightarrow> real \<Rightarrow> npfloat" where
  "np_div a b = (if b \<noteq> 0 then Fin (a / b)
                 else if 0 < a then PInf else if a < 0 then NInf else NaN)"

fun py_sqrt :: "npfloat \<Rightarrow> error + npfloat" where
  "py_sqrt (Fin a) = (if a < 0 then Inl ValueError else Inr (Fin (sqrt a)))"
| "py_sqrt PInf = Inr PInf"
| "py_sqrt NInf = Inl ValueError"
| "py_sqrt NaN = Inr NaN"

fun float_less :: "npfloat \<Rightarrow> real \<Rightarrow> bool" where
  "float_less (Fin a) t = (a < t)"
| "float_less PInf t = False"
| "float_less NInf t = True"
| "float_less NaN t = False"


section \<open>Cholesky factor and triangular solve\<close>

text \<open>
  Forward substitution: the first \<open>n\<close> unknowns of \<open>L x = b\<close> for a lower triangular \<open>L\<close>,
  \<open>x\<^sub>i = (b\<^sub>i - \<Sum>\<^sub>k\<^sub><\<^sub>i L\<^sub>i\<^sub>k x\<^sub>k) / L\<^sub>i\<^sub>i\<close>.
\<close>

primrec forward_sub :: "mat \<Rightarrow> vec \<Rightarrow> nat \<Rightarrow> vec" where
  "forward_sub L b 0 = []"
| "forward_sub L b (Suc i) =
     (let x = forward_sub L b i
      in x @ [(b ! i - sum_list (map (\<lambda>k. L ! i ! k * x ! k) [0..<i])) / L ! i ! i])"

text \<open>
  \<^verbatim>\<open>scipy.linalg.cholesky(A, lower=True)\<close>, over the reals.  It raises \<^verbatim>\<open>ValueError\<close> on
  an array that is not square and \<^verbatim>\<open>LinAlgError\<close> as soon as a pivot
  \<open>A\<^sub>i\<^sub>i - \<Sum>\<^sub>k\<^sub><\<^sub>i L\<^sub>i\<^sub>k\<^sup>2\<close> is not positive; it reads the lower triangle of \<open>A\<close> only and
  returns a factor with zeros above the diagonal.  Row \<open>i\<close> of the factor solves the
  triangular system of the rows before it against row \<open>i\<close> of \<open>A\<close>.
\<close>

primrec chol_rows :: "mat \<Rightarrow> nat \<Rightarrow> error + mat" where
  "chol_rows A 0 = Inr []"
| "chol_rows A (Suc i) =
     bind_err (chol_rows A i) (\<lambda>L.
       let r = forward_sub L (A ! i) i;
           d = A ! i ! i - sum_list (map (\<lambda>a. a * a) r)
       in if d \<le> 0 then Inl LinAlgError
          else Inr (L @ [r @ [sqrt d] @ replicate (nrows A - Suc i) 0]))"

definition cholesky :: "mat \<Rightarrow> error + mat" where
  "cholesky A =
     (if list_ex (\<lambda>r. length r \<noteq> nrows A) A then Inl ValueError
      else chol_rows A (nrows A))"

text \<open>
  \<^verbatim>\<open>scipy.linalg.solve(L, B)\<close>.  The program calls it only with a lower Cholesky factor as
  first argument.  For a lower triangular matrix, a zero on the diagonal makes it singular
  (\<^verbatim>\<open>LinAlgError\<close>); otherwise the unique solution of \<open>L X = B\<close> is computed column by
  column by forward substitution.  The model is this solve; it does not read the entries
  above the diagonal.  Shapes that do not fit raise \<^verbatim>\<open>ValueError\<close>.
\<close>

definition solve :: "mat \<Rightarrow> mat \<Rightarrow> error + mat" where
  "solve L B =
     (if list_ex (\<lambda>r. length r \<noteq> nrows L) L then Inl ValueError
      else if nrows B \<noteq> nrows L then Inl ValueError
      else if list_ex (\<lambda>i. L ! i ! i = 0) [0..<nrows L] then Inl LinAlgError
      else Inr (mk_mat (nrows L) (ncols B)
                  (\<lambda>i j. forward_sub L (map (\<lambda>r. r ! j) B) (nrows L) ! i)))"

text \<open>Positive definiteness of a symmetric \<open>n \<times> n\<close> matrix, as the quadratic form.\<close>

definition quad_form :: "mat \<Rightarrow> vec \<Rightarrow> real" where
  "quad_form A x =
     sum_list (map (\<lambda>i. sum_list (map (\<lambda>j. x ! i * A ! i ! j * x ! j) [0..<length x]))
       [0..<length x])"

definition symmetric :: "mat \<Rightarrow> bool" where
  "symmetric A \<longleftrightarrow> is_mat (nrows A) (nrows A) A
     \<and> list_all (\<lambda>i. list_all (\<lambda>j. A ! i ! j = A ! j ! i) [0..<nrows A]) [0..<nrows A]"

definition lower_triangular :: "mat \<Rightarrow> bool" where
  "lower_triangular L \<longleftrightarrow> is_mat (nrows L) (nrows L) L
     \<and> list_all (\<lambda>i. list_all (\<lambda>j. L ! i ! j = 0) [Suc i..<nrows L]) [0..<nrows L]"
section \<open>Penalty and proximal operators\<close>

text \<open>
  \<^verbatim>\<open>shrink(x, mu) = np.multiply(np.sign(x), np.maximum(np.abs(x) - mu, 0))\<close>,
  entry by entry.
\<close>

definition shrink :: "mat \<Rightarrow> real \<Rightarrow> mat" where
  "shrink x mu = map (map (\<lambda>a. sgn a * max (\<bar>a\<bar> - mu) 0)) x"


section \<open>Temporal basis\<close>

text \<open>\<^verbatim>\<open>np.linspace(a, b, num)\<close> for \<open>num \<ge> 0\<close>.\<close>

definition linspace :: "real \<Rightarrow> real \<Rightarrow> nat \<Rightarrow> vec" where
  "linspace a b num =
     (if num = 1 then [a]
      else map (\<lambda>i. a + real i * ((b - a) / real (num - 1))) [0..<num])"

text \<open>
  \<^verbatim>\<open>gaussian_basis(nlevel, span)\<close>.  \<^verbatim>\<open>x[-1]\<close> raises on an empty span, \<^verbatim>\<open>linspace\<close>
  raises for \<^verbatim>\<open>num = -1\<close> (\<open>nlevel = 0\<close>), and \<^verbatim>\<open>np.max\<close> raises on the empty array
  that \<open>nlevel = 1\<close> produces.
\<close>

definition gaussian_basis :: "nat \<Rightarrow> vec \<Rightarrow> error + mat" where
  "gaussian_basis nlevel x =
     (if x = [] then Inl IndexError
      else if nlevel = 0 then Inl ValueError
      else if nlevel = 1 then Inl ValueError
      else
        let means = linspace (last x / real nlevel) (last x * (1 - 1 / real nlevel)) (nlevel - 1);
            stds = 85 / 10;
            W = map (\<lambda>m. map (\<lambda>t. exp (- ((t - m) ^ 2) / (2 * stds ^ 2))) x) means
        in Inr (div_by (transpose_m W) (Max (set (concat W)))))"

section \<open>Regression data container\<close>

text \<open>
  The fields of \<^verbatim>\<open>REG_Data\<close>; \<open>norm_factor\<close> is \<^verbatim>\<open>_norm_factor\<close>, and \<open>bbt\<close>, \<open>bE\<close>,
  \<open>EtE\<close> are the lists \<^verbatim>\<open>_bbt\<close>, \<^verbatim>\<open>_bE\<close>, \<^verbatim>\<open>_EtE\<close>, which exist once \<^verbatim>\<open>_precompute\<close> has run.
\<close>

record 'k REG_Data =
  filter_length :: nat
  basis :: mat
  covariates :: "'k \<rightharpoonup> mat"
  meg :: "'k \<rightharpoonup> mat"
  datakeys :: "'k list"
  tstep :: "real option"
  norm_factor :: "real option"
  n_predictor_variables :: nat
  bbt :: "mat list option"
  bE :: "mat list option"
  EtE :: "mat list option"

text \<open>The sensor recording handed to \<^verbatim>\<open>load\<close>: its sensor \<open>\<times>\<close> time array and its time
  step.  A stimulus is one time series, or a stack of them when it has a case dimension.\<close>

record ndvar =
  nd_data :: mat
  nd_tstep :: real

datatype stimulus = Stim vec | StimCase mat

definition REG_Data_init :: "nat \<Rightarrow> error + 'k REG_Data" where
  "REG_Data_init fl =
     bind_err (gaussian_basis fl (linspace 5 1000 fl))
       (\<lambda>b. Inr \<lparr> filter_length = fl, basis = b, covariates = Map.empty, meg = Map.empty,
                  datakeys = [], tstep = None, norm_factor = None,
                  n_predictor_variables = 1, bbt = None, bE = None, EtE = None \<rparr>)"

text \<open>
  \<^verbatim>\<open>covariate_from_stim(stim, M, normalize=False)\<close>: per stream the list of reversed
  length-\<open>M\<close> windows, \<^verbatim>\<open>while i + M <= length\<close>.  The normalising branch subtracts the
  mean over the streams and divides by the variance over the streams, time point by time
  point; a zero variance there is a float division by zero.
\<close>

definition windows :: "nat \<Rightarrow> vec \<Rightarrow> mat" where
  "windows M w = map (\<lambda>i. rev (take M (drop i w))) [0..<length w + 1 - M]"

definition stim_array :: "stimulus \<Rightarrow> mat" where
  "stim_array s = (case s of Stim v \<Rightarrow> [v] | StimCase w \<Rightarrow> w)"

definition col_mean :: "mat \<Rightarrow> nat \<Rightarrow> real" where
  "col_mean w t = sum_list (map (\<lambda>r. r ! t) w) / real (length w)"

definition col_var :: "mat \<Rightarrow> nat \<Rightarrow> real" where
  "col_var w t = sum_list (map (\<lambda>r. (r ! t - col_mean w t) ^ 2) w) / real (length w)"

definition normalize_stim :: "mat \<Rightarrow> error + mat" where
  "normalize_stim w =
     (if list_ex (\<lambda>t. col_var w t = 0) [0..<ncols w] then Inl NonFinite
      else Inr (mk_mat (nrows w) (ncols w)
                  (\<lambda>j t. (w ! j ! t - col_mean w t) / col_var w t)))"

definition covariate_from_stim :: "stimulus \<Rightarrow> nat \<Rightarrow> bool \<Rightarrow> error + mat list" where
  "covariate_from_stim stim M normalise =
     bind_err (if normalise then normalize_stim (stim_array stim) else Inr (stim_array stim))
       (\<lambda>w. Inr (map (windows M) w))"

text \<open>
  \<^verbatim>\<open>REG_Data.load\<close>.  \<^verbatim>\<open>y[:, basis.shape[0]-1:]\<close> keeps the last column when the basis
  has no rows (the slice then starts at \<open>-1\<close>).  \<^verbatim>\<open>np.dot\<close> of the stacked windows with
  the basis raises unless every stream has at least one window of \<open>basis.shape[0]\<close>
  samples.  The result is three-dimensional, so the branch \<^verbatim>\<open>covariates.ndim > 2\<close> is
  always taken: the streams' feature blocks are laid side by side, one row per window.
\<close>

definition slice_from :: "mat \<Rightarrow> nat \<Rightarrow> mat" where
  "slice_from y n = (if n = 0 then map (\<lambda>r. drop (length r - 1) r) y
                     else map (drop (n - 1)) y)"

definition dot_windows :: "mat list \<Rightarrow> mat \<Rightarrow> error + mat list" where
  "dot_windows Y b =
     (if Y = [] \<or> list_ex (\<lambda>X. ncols X \<noteq> nrows b) Y then Inl ValueError
      else Inr (map (\<lambda>X. dot X b) Y))"

definition side_by_side :: "mat list \<Rightarrow> mat" where
  "side_by_side C = map (\<lambda>t. concat (map (\<lambda>X. X ! t) C)) [0..<nrows (hd C)]"

definition load :: "'k REG_Data \<Rightarrow> 'k \<Rightarrow> ndvar \<Rightarrow> stimulus \<Rightarrow> bool \<Rightarrow> error + 'k REG_Data" where
  "load self key meg_in stim normalize_regresor =
     (let keys1 = datakeys self @ [key];
          tstep1 = (if tstep self = None then Some (nd_tstep meg_in) else tstep self);
          y = slice_from (nd_data meg_in) (nrows (basis self));
          meg1 = (meg self)(key \<mapsto> div_by y (sqrt (real (ncols y))));
          nf1 = (if norm_factor self = None then Some (sqrt (real (ncols y)))
                 else norm_factor self)
      in bind_err (covariate_from_stim stim (filter_length self) normalize_regresor) (\<lambda>Y.
         bind_err (dot_windows Y (basis self)) (\<lambda>C.
         bind_err (if sqrt (real (ncols y)) = 0 \<and> list_ex (\<lambda>X. concat X \<noteq> []) C
                   then Inl NonFinite
                   else Inr (map (\<lambda>X. div_by X (sqrt (real (ncols y)))) C)) (\<lambda>C1.
         Inr (self \<lparr> datakeys := keys1, tstep := tstep1, meg := meg1, norm_factor := nf1,
                     n_predictor_variables := length C1,
                     covariates := (covariates self)(key \<mapsto> side_by_side C1) \<rparr>)))))"

text \<open>
  \<^verbatim>\<open>REG_Data._precompute\<close>, iterating over the trials in the order of \<open>datakeys\<close>.
\<close>

definition lookup :: "('k \<rightharpoonup> 'v) \<Rightarrow> 'k \<Rightarrow> error + 'v" where
  "lookup m k = (case m k of None \<Rightarrow> Inl KeyError | Some v \<Rightarrow> Inr v)"

fun precompute_loop ::
  "'k REG_Data \<Rightarrow> 'k list \<Rightarrow> error + (mat list \<times> mat list \<times> mat list)" where
  "precompute_loop self [] = Inr ([], [], [])"
| "precompute_loop self (key # ks) =
     bind_err (lookup (meg self) key) (\<lambda>b.
     bind_err (lookup (covariates self) key) (\<lambda>E.
     bind_err (np_dot b (transpose_m b)) (\<lambda>x1.
     bind_err (np_dot b E) (\<lambda>x2.
     bind_err (np_dot (transpose_m E) E) (\<lambda>x3.
     bind_err (precompute_loop self ks) (\<lambda>(l1, l2, l3).
     Inr (x1 # l1, x2 # l2, x3 # l3)))))))"

definition precompute :: "'k REG_Data \<Rightarrow> error + 'k REG_Data" where
  "precompute self =
     bind_err (precompute_loop self (datakeys self)) (\<lambda>(l1, l2, l3).
     Inr (self \<lparr> bbt := Some l1, bE := Some l2, EtE := Some l3 \<rparr>))"

text \<open>
  \<^verbatim>\<open>REG_Data.timeslice(idx)\<close> for an index array \<open>idx\<close>.  An index \<open>i\<close> addresses position
  \<open>i\<close>, or \<open>n + i\<close> when negative, and raises outside \<open>-n \<le> i < n\<close>.  The new container
  is built by \<^verbatim>\<open>REG_Data(self.filter_length)\<close>; the rescaling
  \<^verbatim>\<open>x * self._norm_factor / regdata_._norm_factor\<close> raises when \<^verbatim>\<open>self._norm_factor\<close> is
  \<^verbatim>\<open>None\<close>.
\<close>

definition py_index :: "nat \<Rightarrow> int \<Rightarrow> error + nat" where
  "py_index n i =
     (if 0 \<le> i \<and> i < int n then Inr (nat i)
      else if i < 0 \<and> - int n \<le> i then Inr (nat (int n + i))
      else Inl IndexError)"

fun py_indices :: "nat \<Rightarrow> int list \<Rightarrow> error + nat list" where
  "py_indices n [] = Inr []"
| "py_indices n (i # is) =
     bind_err (py_index n i) (\<lambda>j. bind_err (py_indices n is) (\<lambda>js. Inr (j # js)))"

definition take_cols :: "mat \<Rightarrow> int list \<Rightarrow> error + mat" where
  "take_cols A idx = bind_err (py_indices (ncols A) idx) (\<lambda>js. Inr (map (\<lambda>r. map (\<lambda>j. r ! j) js) A))"

definition take_rows :: "mat \<Rightarrow> int list \<Rightarrow> error + mat" where
  "take_rows A idx = bind_err (py_indices (nrows A) idx) (\<lambda>js. Inr (map (\<lambda>j. A ! j) js))"

definition rescale :: "mat \<Rightarrow> real option \<Rightarrow> real \<Rightarrow> error + mat" where
  "rescale A nf nf1 =
     (case nf of None \<Rightarrow> Inl TypeError
      | Some c \<Rightarrow> np_div_scalar (scale c A) nf1)"

fun timeslice_loop ::
  "'k REG_Data \<Rightarrow> int list \<Rightarrow> real \<Rightarrow> 'k list \<Rightarrow> 'k REG_Data \<Rightarrow> error + 'k REG_Data" where
  "timeslice_loop self idx nf1 [] r = Inr r"
| "timeslice_loop self idx nf1 (key # ks) r =
     bind_err (lookup (meg self) key) (\<lambda>m.
     bind_err (take_cols m idx) (\<lambda>m1.
     bind_err (rescale m1 (norm_factor self) nf1) (\<lambda>m2.
     bind_err (lookup (covariates self) key) (\<lambda>c.
     bind_err (take_rows c idx) (\<lambda>c1.
     bind_err (rescale c1 (norm_factor self) nf1) (\<lambda>c2.
     timeslice_loop self idx nf1 ks
       (r \<lparr> meg := (meg r)(key \<mapsto> m2), covariates := (covariates r)(key \<mapsto> c2) \<rparr>)))))))"

definition timeslice :: "'k REG_Data \<Rightarrow> int list \<Rightarrow> error + 'k REG_Data" where
  "timeslice self idx =
     bind_err (REG_Data_init (filter_length self)) (\<lambda>r0.
       timeslice_loop self idx (sqrt (real (length idx))) (datakeys self)
         (r0 \<lparr> datakeys := datakeys self,
               n_predictor_variables := n_predictor_variables self,
               tstep := tstep self,
               norm_factor := Some (sqrt (real (length idx))) \<rparr>))"

text \<open>
  The containers whose trials all have \<open>T\<close> time samples: a new container, a container
  after loading a trial of \<open>T\<close> samples (sensor series of at least one sensor and covariate
  matrix alike), and a time slice of \<open>T\<close> indices.
\<close>

inductive uniform_samples :: "nat \<Rightarrow> 'k REG_Data \<Rightarrow> bool" where
  fresh: "REG_Data_init fl = Inr c \<Longrightarrow> uniform_samples T c"
| loaded: "uniform_samples T c \<Longrightarrow> load c key m stim nz = Inr c1 \<Longrightarrow>
     meg c1 key = Some y \<Longrightarrow> covariates c1 key = Some E \<Longrightarrow>
     y \<noteq> [] \<Longrightarrow> list_all (\<lambda>r. length r = T) y \<Longrightarrow> length E = T \<Longrightarrow>
     uniform_samples T c1"
| sliced: "uniform_samples T0 c \<Longrightarrow> timeslice c idx = Inr c1 \<Longrightarrow> length idx = T \<Longrightarrow>
     uniform_samples T c1"

section \<open>The model object\<close>

text \<open>
  The numerical fields of \<^verbatim>\<open>DstRF\<close>.  \<open>theta\<close> and \<open>mu\<close> do not exist before
  \<^verbatim>\<open>_set_mu\<close> has run; reading them earlier raises \<^verbatim>\<open>AttributeError\<close>.
\<close>

record 'k DstRF =
  lead_field :: mat
  sources_n :: nat
  orientation :: string
  lead_field_scaling :: real
  noise_covariance :: mat
  n_iter :: nat
  n_iterc :: nat
  n_iterf :: nat
  eta :: real
  init_sigma_b :: mat
  Gamma :: "'k \<rightharpoonup> mat list"
  Sigma_b :: "'k \<rightharpoonup> mat"
  keys :: "'k list"
  theta :: "mat option"
  mu :: "real option"
  err :: "npfloat list"

definition attribute :: "'a option \<Rightarrow> error + 'a" where
  "attribute a = (case a of None \<Rightarrow> Inl AttributeError | Some v \<Rightarrow> Inr v)"


text \<open>
  The collaborators outside the source file: \<^verbatim>\<open>scipy.linalg.norm(A, 2)\<close> (the spectral
  norm), \<^verbatim>\<open>scipy.linalg.eig\<close> on a real symmetric matrix (eigenvalues and a matrix whose
  columns are eigenvectors, both real), the compiled \<^verbatim>\<open>compute_gamma_c(z, a, gamma)\<close>
  (the new contents of the array \<open>gamma\<close>), the compiled \<^verbatim>\<open>opt.cproxg_group\<close>, and the
  proximal-gradient solver \<^verbatim>\<open>Fasta(f, g, gradf, proxg, n_iter).learn(theta).coefs_\<close>.
  They are parameters of the model.
\<close>

record collaborators =
  linalg_norm2 :: "mat \<Rightarrow> real"
  linalg_eig :: "mat \<Rightarrow> vec \<times> mat"
  compute_gamma_c :: "mat \<Rightarrow> mat \<Rightarrow> mat \<Rightarrow> mat"
  cproxg_group :: "mat \<Rightarrow> real \<Rightarrow> mat"
  Fasta_learn :: "(mat \<Rightarrow> error + real) \<Rightarrow> (mat \<Rightarrow> error + real) \<Rightarrow> (mat \<Rightarrow> error + mat)
                   \<Rightarrow> (mat \<Rightarrow> real \<Rightarrow> error + mat) \<Rightarrow> nat \<Rightarrow> mat \<Rightarrow> error + mat"

text \<open>
  The table \<^verbatim>\<open>orientation = {'fixed': 1, 'free': 3}\<close> and its lookup
  \<^verbatim>\<open>orientation[self.orientation]\<close>.
\<close>

definition orientation_table :: "string \<rightharpoonup> nat" where
  "orientation_table = [''fixed'' \<mapsto> 1, ''free'' \<mapsto> 3]"

section \<open>Forward model\<close>

text \<open>
  The lead field handed to the constructor: sensor \<open>\<times>\<close> source, or with a space dimension
  sensor \<open>\<times>\<close> source \<open>\<times>\<close> space, which is flattened to sensor \<open>\<times>\<close> (source, space).
\<close>

datatype leadfield = Fixed mat | Free "mat list"

text \<open>
  \<^verbatim>\<open>DstRF.__init__\<close> with \<^verbatim>\<open>__init__vars\<close>.  The in-place division of the lead field by
  its norm does not raise on a zero norm: the entries become \<^verbatim>\<open>inf\<close> or \<^verbatim>\<open>nan\<close>.  The
  Cholesky factor of the noise covariance is computed next; \<^verbatim>\<open>linalg.solve\<close> then checks
  its arguments for finiteness and raises \<^verbatim>\<open>ValueError\<close>.  The quotient
  \<^verbatim>\<open>shape[0] / trace\<close> is a float division.
\<close>

definition init_vars :: "mat \<Rightarrow> error + mat \<Rightarrow> error + (mat \<times> real \<times> mat)" where
  "init_vars noise lf_divided =
     bind_err (cholesky noise) (\<lambda>wf.
     bind_err (case lf_divided of Inl e \<Rightarrow> Inl ValueError | Inr lf \<Rightarrow> Inr lf) (\<lambda>lf.
     bind_err (solve wf lf) (\<lambda>Gtilde.
     bind_err (np_dot Gtilde (transpose_m Gtilde)) (\<lambda>GG.
     if trace GG = 0 then Inl NonFinite
     else
       let eta1 = real (nrows lf) / trace GG
       in bind_err (np_dot lf (transpose_m lf)) (\<lambda>LL.
          bind_err (np_add noise (scale eta1 LL)) (\<lambda>sigma_b.
          Inr (lf, eta1, sigma_b)))))))"

definition lf_array :: "leadfield \<Rightarrow> mat" where
  "lf_array l = (case l of Fixed a \<Rightarrow> a | Free a \<Rightarrow> map concat a)"

definition lf_sources :: "leadfield \<Rightarrow> nat" where
  "lf_sources l = (case l of Fixed a \<Rightarrow> ncols a
                   | Free a \<Rightarrow> (case a of [] \<Rightarrow> 0 | s # _ \<Rightarrow> length s))"

definition lf_orientation :: "leadfield \<Rightarrow> string" where
  "lf_orientation l = (case l of Fixed a \<Rightarrow> ''fixed'' | Free a \<Rightarrow> ''free'')"

definition DstRF_init ::
  "collaborators \<Rightarrow> leadfield \<Rightarrow> mat \<Rightarrow> nat \<Rightarrow> nat \<Rightarrow> nat \<Rightarrow> error + 'k DstRF" where
  "DstRF_init ext lead_field_in noise n_iter1 n_iterc1 n_iterf1 =
     (let scaling = linalg_norm2 ext (lf_array lead_field_in)
      in bind_err (init_vars noise (np_div_scalar (lf_array lead_field_in) scaling))
           (\<lambda>(lf, eta1, sigma_b).
             Inr \<lparr> lead_field = lf, sources_n = lf_sources lead_field_in,
                   orientation = lf_orientation lead_field_in,
                   lead_field_scaling = scaling, noise_covariance = noise,
                   n_iter = n_iter1, n_iterc = n_iterc1, n_iterf = n_iterf1,
                   eta = eta1, init_sigma_b = sigma_b,
                   Gamma = Map.empty, Sigma_b = Map.empty, keys = [],
                   theta = None, mu = None, err = [] \<rparr>))"

text \<open>\<^verbatim>\<open>DstRF.__init__iter(data)\<close> and \<^verbatim>\<open>DstRF._set_mu(mu, data)\<close>; the latter also runs
  \<^verbatim>\<open>data._precompute()\<close>, so it returns the container too.\<close>

definition init_iter :: "'k DstRF \<Rightarrow> 'k REG_Data \<Rightarrow> error + 'k DstRF" where
  "init_iter self data =
     bind_err (lookup orientation_table (orientation self)) (\<lambda>dc.
       Inr (self \<lparr>
         Gamma := fold (\<lambda>key G. G(key \<mapsto> replicate (sources_n self) (scale (eta self) (eye dc))))
                    (datakeys data) Map.empty,
         Sigma_b := fold (\<lambda>key S. S(key \<mapsto> init_sigma_b self)) (datakeys data) Map.empty,
         keys := datakeys data,
         theta := Some (zeros (sources_n self * dc)
                          (n_predictor_variables data * ncols (basis data))) \<rparr>))"

definition set_mu :: "'k DstRF \<Rightarrow> real \<Rightarrow> 'k REG_Data \<Rightarrow> error + ('k DstRF \<times> 'k REG_Data)" where
  "set_mu self mu1 data =
     bind_err (init_iter (self \<lparr> mu := Some mu1 \<rparr>) data) (\<lambda>self1.
     bind_err (precompute data) (\<lambda>data1. Inr (self1, data1)))"

section \<open>Diagnostics\<close>

text \<open>
  \<^verbatim>\<open>DstRF._residual(theta0, theta1)\<close>: the quotient of the two sums is a float division,
  then \<^verbatim>\<open>math.sqrt\<close>.
\<close>

definition residual :: "mat \<Rightarrow> mat \<Rightarrow> error + npfloat" where
  "residual theta0 theta1 =
     bind_err (np_sub theta1 theta0) (\<lambda>diff.
       py_sqrt (np_div (msum (square diff)) (msum (square theta0))))"

text \<open>
  \<^verbatim>\<open>DstRF.compute_ES_metric(models, data)\<close>.  Per model the fitted signals
  \<^verbatim>\<open>lead_field . theta . covariates[key].T\<close> of all trials are flattened and appended.
  \<^verbatim>\<open>np.array(Y)\<close> needs rows of one length; with no model at all \<open>Y\<close> is one-dimensional
  and \<^verbatim>\<open>sum(axis=1)\<close> raises.
\<close>

fun signal_of :: "'k DstRF \<Rightarrow> 'k REG_Data \<Rightarrow> 'k list \<Rightarrow> vec \<Rightarrow> error + vec" where
  "signal_of model data [] y = Inr y"
| "signal_of model data (key # ks) y =
     bind_err (attribute (theta model)) (\<lambda>th.
     bind_err (np_dot (lead_field model) th) (\<lambda>a.
     bind_err (lookup (covariates data) key) (\<lambda>E.
     bind_err (np_dot a (transpose_m E)) (\<lambda>s.
     signal_of model data ks (y @ concat s)))))"

fun signals :: "'k DstRF list \<Rightarrow> 'k REG_Data \<Rightarrow> error + mat" where
  "signals [] data = Inr []"
| "signals (model # ms) data =
     bind_err (signal_of model data (datakeys data) []) (\<lambda>y.
     bind_err (signals ms data) (\<lambda>Y. Inr (y # Y)))"

definition mean :: "vec \<Rightarrow> real" where
  "mean xs = sum_list xs / real (length xs)"

definition mean_axis0 :: "mat \<Rightarrow> vec" where
  "mean_axis0 Y = map (\<lambda>p. mean (map (\<lambda>y. y ! p) Y)) [0..<ncols Y]"

definition sub_row :: "mat \<Rightarrow> vec \<Rightarrow> mat" where
  "sub_row Y r = map (\<lambda>y. map2 (\<lambda>a b. a - b) y r) Y"

definition compute_ES_metric :: "'k DstRF list \<Rightarrow> 'k REG_Data \<Rightarrow> error + npfloat" where
  "compute_ES_metric models data =
     bind_err (signals models data) (\<lambda>Y.
       if Y = [] then Inl AxisError
       else if list_ex (\<lambda>y. length y \<noteq> ncols Y) Y then Inl ValueError
       else
         let Y_bar = mean_axis0 Y;
             VarY = mean (map sum_list (square (sub_row Y Y_bar)))
         in Inr (np_div VarY (msum (square [Y_bar]))))"
text \<open>The squared distance of two signals, for the lemmas on the explained-signal metric.\<close>

definition sq_dist :: "vec \<Rightarrow> vec \<Rightarrow> real" where
  "sq_dist y r = sum_list (map (\<lambda>a. a * a) (map2 (\<lambda>a b. a - b) y r))"


section \<open>Champagne inner solver\<close>

text \<open>\<^verbatim>\<open>xs[i]\<close> on a list, and the column block \<^verbatim>\<open>A[:, i * dc:(i + 1) * dc]\<close>.\<close>

definition nth_err :: "'a list \<Rightarrow> nat \<Rightarrow> error + 'a" where
  "nth_err xs i = (if i < length xs then Inr (xs ! i) else Inl IndexError)"

definition block :: "mat \<Rightarrow> nat \<Rightarrow> nat \<Rightarrow> mat" where
  "block A i dc = map (\<lambda>r. take dc (drop (i * dc) r)) A"

text \<open>
  \<^verbatim>\<open>_myinv\<close> and \<^verbatim>\<open>_compute_gamma_i(z, x)\<close>, with \<^verbatim>\<open>linalg.eig\<close> a parameter.  The products
  \<^verbatim>\<open>temp * e\<close>, \<^verbatim>\<open>v * _myinv(e)\<close>, \<^verbatim>\<open>temp * d\<close> broadcast a vector along the rows (they scale
  the columns), and \<^verbatim>\<open>* e[:, np.newaxis]\<close> scales the rows.
\<close>

definition myinv :: "vec \<Rightarrow> vec" where
  "myinv x = map (\<lambda>a. if 0 < a then 1 / a else 0) x"

definition clamp0 :: "vec \<Rightarrow> vec" where
  "clamp0 e = map (\<lambda>a. if a < 0 then 0 else a) e"

definition compute_gamma_i :: "collaborators \<Rightarrow> mat \<Rightarrow> mat \<Rightarrow> error + mat" where
  "compute_gamma_i ext z x =
     (let (e0, v) = linalg_eig ext z;
          e1 = clamp0 e0
      in bind_err (np_dot (transpose_m x) v) (\<lambda>temp.
         bind_err (np_dot (transpose_m temp) temp) (\<lambda>temp2.
         let e = map sqrt e1
         in bind_err (np_mul temp2 [e]) (\<lambda>m1.
            bind_err (np_mul m1 (map (\<lambda>a. [a]) e)) (\<lambda>m2.
            let (d0, u) = linalg_eig ext m2;
                d = map sqrt (clamp0 d0)
            in bind_err (np_mul v [myinv e]) (\<lambda>vi.
               bind_err (np_dot vi u) (\<lambda>temp3.
               bind_err (np_mul temp3 [d]) (\<lambda>td.
               np_dot td (transpose_m temp3)))))))))"

text \<open>
  The update of one source covariance block (the \<^verbatim>\<open>if dc == 1 \<dots> elif dc == 3 \<dots> else\<close>
  of \<^verbatim>\<open>_solve\<close>).  For \<open>dc = 1\<close> the two \<^verbatim>\<open>math.sqrt\<close> take a \<open>1 \<times> 1\<close> array, and the
  quotient of the two Python floats raises on a zero divisor; the float stored in
  \<^verbatim>\<open>gamma[i]\<close> is kept as a \<open>1 \<times> 1\<close> matrix, with which \<^verbatim>\<open>np.dot\<close> agrees on the one-row
  arrays it is multiplied by.  The last branch builds a \<^verbatim>\<open>NotImplementedError\<close> object
  and drops it: there is no \<^verbatim>\<open>raise\<close>, and \<^verbatim>\<open>gamma[i]\<close> stays as it is.
\<close>

definition sqrt_1x1 :: "mat \<Rightarrow> error + real" where
  "sqrt_1x1 A = (case A of [[a]] \<Rightarrow> (if a < 0 then Inl ValueError else Inr (sqrt a))
                 | _ \<Rightarrow> Inl TypeError)"

definition update_gamma :: "collaborators \<Rightarrow> nat \<Rightarrow> bool \<Rightarrow> mat \<Rightarrow> mat \<Rightarrow> mat \<Rightarrow> error + mat" where
  "update_gamma ext dc use_optimized z x gamma_i =
     (if dc = 1 then
        bind_err (np_dot x (transpose_m x)) (\<lambda>xx.
        bind_err (sqrt_1x1 xx) (\<lambda>a.
        bind_err (sqrt_1x1 z) (\<lambda>b.
        if b = 0 then Inl ZeroDivisionError else Inr [[a / b]])))
      else if dc = 3 then
        (if use_optimized
         then bind_err (np_dot x (transpose_m x)) (\<lambda>a. Inr (compute_gamma_c ext z a gamma_i))
         else compute_gamma_i ext z x)
      else Inr gamma_i)"

text \<open>
  The loop over the sources, \<^verbatim>\<open>for i in range(self.sources_n)\<close>, on the pair
  \<open>(gamma, sigma_b)\<close>.
\<close>

fun source_loop ::
  "collaborators \<Rightarrow> nat \<Rightarrow> bool \<Rightarrow> mat \<Rightarrow> mat \<Rightarrow> mat \<Rightarrow> nat list \<Rightarrow> mat list \<times> mat
     \<Rightarrow> error + (mat list \<times> mat)" where
  "source_loop ext dc uo lf lhat ytilde [] (gamma, sigma_b) = Inr (gamma, sigma_b)"
| "source_loop ext dc uo lf lhat ytilde (i # rest) (gamma, sigma_b) =
     bind_err (nth_err gamma i) (\<lambda>g.
     bind_err (np_dot (transpose_m ytilde) (block lhat i dc)) (\<lambda>t.
     bind_err (np_dot g (transpose_m t)) (\<lambda>x.
     bind_err (np_dot (transpose_m (block lhat i dc)) (block lhat i dc)) (\<lambda>z.
     bind_err (update_gamma ext dc uo z x g) (\<lambda>g1.
     bind_err (np_dot g1 (transpose_m (block lf i dc))) (\<lambda>t2.
     bind_err (np_dot (block lf i dc) t2) (\<lambda>inc.
     bind_err (np_iadd sigma_b inc) (\<lambda>sigma1.
     source_loop ext dc uo lf lhat ytilde rest (gamma[i := g1], sigma1)))))))))"

text \<open>One Champagne iteration (the body of \<^verbatim>\<open>for it in range(n_iterc)\<close>) and the loop.\<close>

definition champagne_iter ::
  "collaborators \<Rightarrow> 'k DstRF \<Rightarrow> nat \<Rightarrow> bool \<Rightarrow> mat \<Rightarrow> mat list \<times> mat \<Rightarrow> error + (mat list \<times> mat)" where
  "champagne_iter ext self dc uo yhat s =
     bind_err (cholesky (snd s)) (\<lambda>Lc.
     bind_err (solve Lc (lead_field self)) (\<lambda>lhat.
     bind_err (solve Lc yhat) (\<lambda>ytilde.
     source_loop ext dc uo (lead_field self) lhat ytilde [0..<sources_n self]
       (fst s, noise_covariance self))))"

primrec champagne ::
  "collaborators \<Rightarrow> 'k DstRF \<Rightarrow> nat \<Rightarrow> bool \<Rightarrow> mat \<Rightarrow> nat \<Rightarrow> mat list \<times> mat
     \<Rightarrow> error + (mat list \<times> mat)" where
  "champagne ext self dc uo yhat 0 s = Inr s"
| "champagne ext self dc uo yhat (Suc n) s =
     bind_err (champagne_iter ext self dc uo yhat s) (champagne ext self dc uo yhat n)"

text \<open>
  \<^verbatim>\<open>DstRF._solve(data, theta, use_optimized=True, **kwargs)\<close>.  The keyword arguments it
  reads are \<^verbatim>\<open>idx\<close> (default: everything; an index array selects along the first axis)
  and \<^verbatim>\<open>n_iterc\<close>.
\<close>

record kwargs =
  kw_idx :: "int list option"
  kw_n_iterc :: "nat option"
  kw_use_optimized :: "bool option"

definition index0 :: "mat \<Rightarrow> int list option \<Rightarrow> error + mat" where
  "index0 A idx = (case idx of None \<Rightarrow> Inr A | Some ix \<Rightarrow> take_rows A ix)"

definition residual_factor :: "'k DstRF \<Rightarrow> mat \<Rightarrow> mat \<Rightarrow> mat \<Rightarrow> error + mat" where
  "residual_factor self th meg1 cov1 =
     bind_err (np_dot (lead_field self) th) (\<lambda>a.
     bind_err (np_dot a (transpose_m cov1)) (\<lambda>pred.
     bind_err (np_sub meg1 pred) (\<lambda>y.
     bind_err (np_dot y (transpose_m y)) (\<lambda>Cb.
     cholesky Cb))))"

fun solve_loop ::
  "collaborators \<Rightarrow> 'k REG_Data \<Rightarrow> mat \<Rightarrow> nat \<Rightarrow> bool \<Rightarrow> int list option \<Rightarrow> nat \<Rightarrow> 'k list
     \<Rightarrow> 'k DstRF \<Rightarrow> error + 'k DstRF" where
  "solve_loop ext data th dc uo idx n [] self = Inr self"
| "solve_loop ext data th dc uo idx n (key # ks) self =
     bind_err (lookup (meg data) key) (\<lambda>meg0.
     bind_err (lookup (covariates data) key) (\<lambda>cov0.
     bind_err (index0 meg0 idx) (\<lambda>meg1.
     bind_err (index0 cov0 idx) (\<lambda>cov1.
     bind_err (residual_factor self th meg1 cov1) (\<lambda>yhat.
     bind_err (lookup (Gamma self) key) (\<lambda>gamma.
     bind_err (lookup (Sigma_b self) key) (\<lambda>sigma_b.
     bind_err (champagne ext self dc uo yhat n (gamma, sigma_b)) (\<lambda>(gamma1, sigma1).
     solve_loop ext data th dc uo idx n ks
       (self \<lparr> Gamma := (Gamma self)(key \<mapsto> gamma1),
               Sigma_b := (Sigma_b self)(key \<mapsto> sigma1) \<rparr>)))))))))"

definition DstRF_solve ::
  "collaborators \<Rightarrow> 'k DstRF \<Rightarrow> 'k REG_Data \<Rightarrow> mat \<Rightarrow> kwargs \<Rightarrow> error + 'k DstRF" where
  "DstRF_solve ext self data th kw =
     bind_err (lookup orientation_table (orientation self)) (\<lambda>dc.
       solve_loop ext data th dc
         (case kw_use_optimized kw of None \<Rightarrow> True | Some b \<Rightarrow> b)
         (kw_idx kw)
         (case kw_n_iterc kw of None \<Rightarrow> n_iterc self | Some n \<Rightarrow> n)
         (datakeys data) self)"

section \<open>Objective and gradient\<close>

text \<open>
  \<^verbatim>\<open>inner1d(A, B)\<close>: the inner products of corresponding rows; the rows broadcast, the
  row lengths must agree.
\<close>

definition inner1d :: "mat \<Rightarrow> mat \<Rightarrow> error + vec" where
  "inner1d A B =
     (case bc_dim (nrows A) (nrows B) of
        None \<Rightarrow> Inl ValueError
      | Some r \<Rightarrow>
          if ncols A \<noteq> ncols B then Inl ValueError
          else Inr (map (\<lambda>i. sum_list (map (\<lambda>j. A ! (if nrows A = 1 then 0 else i) ! j
                                               * B ! (if nrows B = 1 then 0 else i) ! j)
                                      [0..<ncols A])) [0..<r]))"

text \<open>The inner functions \<^verbatim>\<open>f\<close> and \<^verbatim>\<open>gradf\<close> of \<^verbatim>\<open>_construct_f\<close>.\<close>

definition f_trial :: "mat \<Rightarrow> mat \<Rightarrow> real \<Rightarrow> mat \<Rightarrow> mat \<Rightarrow> error + real" where
  "f_trial L x bbt1 bE1 EtE1 =
     bind_err (np_dot L x) (\<lambda>Lx.
     bind_err (inner1d bE1 Lx) (\<lambda>s1.
     bind_err (np_dot Lx EtE1) (\<lambda>LxE.
     bind_err (inner1d Lx LxE) (\<lambda>s2.
     Inr ((1 / 2) * (bbt1 - 2 * sum_list s1 + sum_list s2))))))"

definition gradf_trial :: "mat \<Rightarrow> mat \<Rightarrow> mat \<Rightarrow> mat \<Rightarrow> error + mat" where
  "gradf_trial L x bE1 EtE1 =
     bind_err (np_dot L x) (\<lambda>Lx.
     bind_err (np_dot Lx EtE1) (\<lambda>LxE.
     bind_err (np_sub bE1 LxE) (\<lambda>y.
     bind_err (np_dot (transpose_m L) y) (\<lambda>g. Inr (scale (- 1) g)))))"

fun map_err :: "('a \<Rightarrow> error + 'b) \<Rightarrow> 'a list \<Rightarrow> error + 'b list" where
  "map_err h [] = Inr []"
| "map_err h (a # as) = bind_err (h a) (\<lambda>b. bind_err (map_err h as) (\<lambda>bs. Inr (b # bs)))"

text \<open>The closures \<^verbatim>\<open>funct\<close> and \<^verbatim>\<open>grad_funct\<close>, over the lists they capture.\<close>

fun funct_loop ::
  "mat list \<Rightarrow> real list \<Rightarrow> mat list \<Rightarrow> mat list option \<Rightarrow> mat \<Rightarrow> nat list \<Rightarrow> real \<Rightarrow> error + real" where
  "funct_loop leadfields bbts bEs EtEs x [] fval = Inr fval"
| "funct_loop leadfields bbts bEs EtEs x (trial # rest) fval =
     bind_err (nth_err leadfields trial) (\<lambda>L.
     bind_err (nth_err bbts trial) (\<lambda>bbt1.
     bind_err (nth_err bEs trial) (\<lambda>bE1.
     bind_err (attribute EtEs) (\<lambda>EtE_list.
     bind_err (nth_err EtE_list trial) (\<lambda>EtE1.
     bind_err (f_trial L x bbt1 bE1 EtE1) (\<lambda>v.
     funct_loop leadfields bbts bEs EtEs x rest (fval + v)))))))"

definition gradf_at :: "mat list \<Rightarrow> mat list \<Rightarrow> mat list option \<Rightarrow> mat \<Rightarrow> nat \<Rightarrow> error + mat" where
  "gradf_at leadfields bEs EtEs x trial =
     bind_err (nth_err leadfields trial) (\<lambda>L.
     bind_err (nth_err bEs trial) (\<lambda>bE1.
     bind_err (attribute EtEs) (\<lambda>EtE_list.
     bind_err (nth_err EtE_list trial) (\<lambda>EtE1.
     gradf_trial L x bE1 EtE1))))"

fun grad_loop ::
  "mat list \<Rightarrow> mat list \<Rightarrow> mat list option \<Rightarrow> mat \<Rightarrow> nat list \<Rightarrow> mat \<Rightarrow> error + mat" where
  "grad_loop leadfields bEs EtEs x [] grad = Inr grad"
| "grad_loop leadfields bEs EtEs x (trial # rest) grad =
     bind_err (gradf_at leadfields bEs EtEs x (trial + 1)) (\<lambda>g.
     bind_err (np_iadd grad g) (\<lambda>grad1.
     grad_loop leadfields bEs EtEs x rest grad1))"

definition funct :: "mat list \<Rightarrow> real list \<Rightarrow> mat list \<Rightarrow> mat list option \<Rightarrow> nat \<Rightarrow> mat \<Rightarrow> error + real" where
  "funct leadfields bbts bEs EtEs n_keys x =
     funct_loop leadfields bbts bEs EtEs x [0..<n_keys] 0"

definition grad_funct :: "mat list \<Rightarrow> mat list \<Rightarrow> mat list option \<Rightarrow> nat \<Rightarrow> mat \<Rightarrow> error + mat" where
  "grad_funct leadfields bEs EtEs n_keys x =
     bind_err (gradf_at leadfields bEs EtEs x 0) (\<lambda>grad.
       grad_loop leadfields bEs EtEs x [0..<n_keys - 1] grad)"

text \<open>
  \<^verbatim>\<open>DstRF._construct_f(data)\<close>: the per-trial Cholesky factors of \<open>Sigma_b\<close>, the whitened
  lead fields, the whitened \<^verbatim>\<open>_bE\<close> and the traces of the doubly whitened \<^verbatim>\<open>_bbt\<close>.
\<close>

definition construct_f ::
  "'k DstRF \<Rightarrow> 'k REG_Data \<Rightarrow> error + ((mat \<Rightarrow> error + real) \<times> (mat \<Rightarrow> error + mat))" where
  "construct_f self data =
     bind_err (map_err (\<lambda>key. bind_err (lookup (Sigma_b self) key) cholesky) (keys self)) (\<lambda>Ls.
     bind_err (map_err (\<lambda>trial. bind_err (nth_err Ls trial) (\<lambda>L. solve L (lead_field self)))
                 [0..<length (keys self)]) (\<lambda>leadfields.
     bind_err (map_err (\<lambda>trial. bind_err (nth_err Ls trial) (\<lambda>L.
                                  bind_err (attribute (bE data)) (\<lambda>bE_list.
                                  bind_err (nth_err bE_list trial) (\<lambda>b. solve L b))))
                 [0..<length (datakeys data)]) (\<lambda>bEs.
     bind_err (map_err (\<lambda>trial. bind_err (nth_err Ls trial) (\<lambda>L.
                                  bind_err (attribute (bbt data)) (\<lambda>bbt_list.
                                  bind_err (nth_err bbt_list trial) (\<lambda>b.
                                  bind_err (solve L b) (\<lambda>s.
                                  bind_err (solve L (transpose_m s)) (\<lambda>s2. Inr (trace s2)))))))
                 [0..<length (datakeys data)]) (\<lambda>bbts.
     Inr (funct leadfields bbts bEs (EtE data) (length (keys self)),
          grad_funct leadfields bEs (EtE data) (length (keys self)))))))"

section \<open>Outer driver\<close>

text \<open>
  The penalties: \<^verbatim>\<open>g\<close> with \<^verbatim>\<open>shrink\<close> for the fixed orientation, \<^verbatim>\<open>g_group\<close> with
  \<^verbatim>\<open>proxg_group_opt\<close> for the free one.  The reshape to \<open>(-1, 3, l)\<close> raises unless the
  number of rows is a multiple of 3.
\<close>

definition g :: "mat \<Rightarrow> real \<Rightarrow> real" where
  "g x mu1 = mu1 * msum (map (map abs) x)"

definition g_group :: "mat \<Rightarrow> real \<Rightarrow> error + real" where
  "g_group x mu1 =
     (if nrows x mod 3 \<noteq> 0 then Inl ValueError
      else Inr (mu1 * sum_list (map (\<lambda>s. sum_list (map (\<lambda>t.
                   sqrt (sum_list (map (\<lambda>q. (x ! (3 * s + q) ! t) ^ 2) [0..<3])))
                 [0..<ncols x])) [0..<nrows x div 3])))"

definition proxg_group_opt :: "collaborators \<Rightarrow> mat \<Rightarrow> real \<Rightarrow> error + mat" where
  "proxg_group_opt ext z mu1 =
     (if nrows z mod 3 \<noteq> 0 then Inl ValueError else Inr (cproxg_group ext z mu1))"

definition penalty ::
  "collaborators \<Rightarrow> string \<Rightarrow> real \<Rightarrow> ((mat \<Rightarrow> error + real) \<times> (mat \<Rightarrow> real \<Rightarrow> error + mat)) option" where
  "penalty ext ori mu1 =
     (if ori = ''fixed'' then Some (\<lambda>x. Inr (g x mu1), \<lambda>x t. Inr (shrink x (mu1 * t)))
      else if ori = ''free'' then Some (\<lambda>x. g_group x mu1, \<lambda>x t. proxg_group_opt ext x (mu1 * t))
      else None)"

text \<open>
  \<^verbatim>\<open>DstRF.fit(data, mu, tol, **kwargs)\<close> with \<^verbatim>\<open>verbose=False\<close>.  \<^verbatim>\<open>_construct_f\<close> takes no
  keyword arguments, so the call \<^verbatim>\<open>self._construct_f(data, **kwargs)\<close> raises
  \<^verbatim>\<open>TypeError\<close> unless \<^verbatim>\<open>kwargs\<close> is empty.  The penalty pair is unbound for an
  orientation other than the two known ones, which shows when \<^verbatim>\<open>Fasta\<close> is built.
\<close>

definition no_kwargs :: kwargs where
  "no_kwargs = \<lparr> kw_idx = None, kw_n_iterc = None, kw_use_optimized = None \<rparr>"

fun fit_loop ::
  "collaborators \<Rightarrow> 'k REG_Data \<Rightarrow> real \<Rightarrow> kwargs
     \<Rightarrow> ((mat \<Rightarrow> error + real) \<times> (mat \<Rightarrow> real \<Rightarrow> error + mat)) option
     \<Rightarrow> nat \<Rightarrow> 'k DstRF \<times> mat \<Rightarrow> error + 'k DstRF" where
  "fit_loop ext data tol kw pen 0 (self, th) = Inr self"
| "fit_loop ext data tol kw pen (Suc n) (self, th) =
     bind_err (if kw = no_kwargs then construct_f self data else Inl TypeError) (\<lambda>(fun1, grad1).
     bind_err (case pen of None \<Rightarrow> Inl NameError | Some p \<Rightarrow> Inr p) (\<lambda>(g_funct, prox_g).
     bind_err (Fasta_learn ext fun1 g_funct grad1 prox_g (n_iterf self) th) (\<lambda>coefs.
     bind_err (residual th coefs) (\<lambda>r.
       if float_less r tol
       then Inr (self \<lparr> err := err self @ [r], theta := Some coefs \<rparr>)
       else bind_err (DstRF_solve ext (self \<lparr> err := err self @ [r], theta := Some coefs \<rparr>)
                        data coefs kw)
              (\<lambda>self1. fit_loop ext data tol kw pen n (self1, coefs))))))"

definition fit ::
  "collaborators \<Rightarrow> 'k DstRF \<Rightarrow> 'k REG_Data \<Rightarrow> real \<Rightarrow> real \<Rightarrow> kwargs \<Rightarrow> error + 'k DstRF" where
  "fit ext self data mu1 tol kw =
     bind_err (case kw_idx kw of None \<Rightarrow> Inr data | Some idx \<Rightarrow> timeslice data idx) (\<lambda>data1.
     bind_err (set_mu self mu1 data1) (\<lambda>(self1, data2).
     bind_err (attribute (theta self1)) (\<lambda>th.
       fit_loop ext data2 tol kw (penalty ext (orientation self1) mu1) (n_iter self1)
         (self1 \<lparr> err := [] \<rparr>, th))))"

section \<open>The data covariance of the specification\<close>

text \<open>
  The data covariance as the specification words it: the noise covariance plus the sum
  over all sources \<open>i\<close> of \<open>LeadField_block\<^sub>i \<cdot> gamma\<^sub>i \<cdot> LeadField_block\<^sub>i\<^sup>T\<close>.  It is compared
  with what the source loop accumulates.
\<close>

definition sigma_of_gamma :: "'k DstRF \<Rightarrow> nat \<Rightarrow> mat list \<Rightarrow> mat" where
  "sigma_of_gamma self dc gamma =
     mk_mat (nrows (noise_covariance self)) (nrows (noise_covariance self))
       (\<lambda>p q. noise_covariance self ! p ! q
          + (\<Sum>i<sources_n self.
               dot (block (lead_field self) i dc)
                 (dot (gamma ! i) (transpose_m (block (lead_field self) i dc))) ! p ! q))"

section \<open>The explicit objective of the specification\<close>

text \<open>
  The objective as the specification words it, by the explicit residual: for each trial the
  sensor series minus \<open>lead_field \<cdot> theta \<cdot> covariate\<^sup>T\<close>, whitened by solving against the
  lower Cholesky factor of that trial's \<open>Sigma_b\<close>, and half its squared Frobenius norm,
  summed over the trials.  It is compared with the closures \<^verbatim>\<open>_construct_f\<close> builds from the
  cached statistics.
\<close>

definition residual_energy :: "mat \<Rightarrow> mat \<Rightarrow> mat \<Rightarrow> mat \<Rightarrow> mat \<Rightarrow> error + real" where
  "residual_energy G b E L th =
     bind_err (np_dot G th) (\<lambda>Gt.
     bind_err (np_dot Gt (transpose_m E)) (\<lambda>p.
     bind_err (np_sub b p) (\<lambda>y.
     bind_err (solve L y) (\<lambda>yw. Inr ((1 / 2) * msum (square yw))))))"

definition explicit_trial :: "'k DstRF \<Rightarrow> 'k REG_Data \<Rightarrow> mat \<Rightarrow> 'k \<Rightarrow> error + real" where
  "explicit_trial self data th key =
     bind_err (lookup (meg data) key) (\<lambda>b.
     bind_err (lookup (covariates data) key) (\<lambda>E.
     bind_err (bind_err (lookup (Sigma_b self) key) cholesky) (\<lambda>L.
     residual_energy (lead_field self) b E L th)))"

fun explicit_loop :: "'k DstRF \<Rightarrow> 'k REG_Data \<Rightarrow> mat \<Rightarrow> 'k list \<Rightarrow> real \<Rightarrow> error + real" where
  "explicit_loop self data th [] v = Inr v"
| "explicit_loop self data th (key # ks) v =
     bind_err (explicit_trial self data th key) (\<lambda>u. explicit_loop self data th ks (v + u))"

definition explicit_objective :: "'k DstRF \<Rightarrow> 'k REG_Data \<Rightarrow> mat \<Rightarrow> error + real" where
  "explicit_objective self data th = explicit_loop self data th (datakeys data) 0"

text \<open>
  The point \<open>th + t \<cdot> D\<close> on the line through \<open>th\<close> in direction \<open>D\<close>, and the inner product
  \<open>\<Sum>\<^sub>i\<^sub>j A\<^sub>i\<^sub>j D\<^sub>i\<^sub>j\<close> of two arrays: a matrix \<open>Gm\<close> is the gradient of a function at \<open>th\<close> when
  the derivative along every line is the inner product of \<open>Gm\<close> with the direction.
\<close>

definition line_point :: "mat \<Rightarrow> mat \<Rightarrow> real \<Rightarrow> mat" where
  "line_point th D t = mk_mat (nrows th) (ncols th) (\<lambda>i j. th ! i ! j + t * D ! i ! j)"

definition inner_mat :: "mat \<Rightarrow> mat \<Rightarrow> real" where
  "inner_mat A D =
     sum_list (map (\<lambda>i. sum_list (map (\<lambda>j. A ! i ! j * D ! i ! j) [0..<ncols A])) [0..<nrows A])"

text \<open>
  A trial the objective is defined on: \<open>K\<close> sensors, a sensor series and a covariate matrix
  of as many samples, \<open>F\<close> covariate columns, and a \<open>Sigma_b\<close> of \<open>K\<close> rows that has a Cholesky
  factor.
\<close>

definition valid_trial :: "nat \<Rightarrow> nat \<Rightarrow> 'k DstRF \<Rightarrow> 'k REG_Data \<Rightarrow> 'k \<Rightarrow> bool" where
  "valid_trial K F self data key =
     (case (meg data key, covariates data key, Sigma_b self key) of
        (Some b, Some E, Some S) \<Rightarrow>
          0 < ncols b \<and> is_mat K (ncols b) b \<and> is_mat (ncols b) F E \<and> nrows S = K
          \<and> (case cholesky S of Inr L \<Rightarrow> True | Inl e \<Rightarrow> False)
      | _ \<Rightarrow> False)"

text \<open>
  Index functions used in the proofs: the matrix product and the Frobenius inner product of
  index functions, and the inverse of a lower triangular matrix, column by column.
\<close>

definition fdot :: "nat \<Rightarrow> (nat \<Rightarrow> nat \<Rightarrow> real) \<Rightarrow> (nat \<Rightarrow> nat \<Rightarrow> real) \<Rightarrow> nat \<Rightarrow> nat \<Rightarrow> real" where
  "fdot n a b i j = (\<Sum>k<n. a i k * b k j)"

definition frob :: "nat \<Rightarrow> nat \<Rightarrow> (nat \<Rightarrow> nat \<Rightarrow> real) \<Rightarrow> (nat \<Rightarrow> nat \<Rightarrow> real) \<Rightarrow> real" where
  "frob r c a b = (\<Sum>i<r. \<Sum>j<c. a i j * b i j)"

definition linv :: "mat \<Rightarrow> nat \<Rightarrow> nat \<Rightarrow> real" where
  "linv L i k = forward_sub L (map (\<lambda>r. r ! k) (eye (nrows L))) (nrows L) ! i"

text \<open>
  The whitened array \<open>L\<^sup>-\<^sup>1 B\<close>, and the cached form of a trial's objective with its gradient,
  on index functions: \<open>lt\<close> the whitened lead field, \<open>be\<close> the whitened \<^verbatim>\<open>_bE\<close>, \<open>m\<close> the
  \<^verbatim>\<open>_EtE\<close> and \<open>c\<close> the whitened trace.
\<close>

definition white :: "mat \<Rightarrow> mat \<Rightarrow> nat \<Rightarrow> nat \<Rightarrow> real" where
  "white L B = fdot (nrows L) (linv L) (\<lambda>i j. B ! i ! j)"

definition quad_value ::
  "nat \<Rightarrow> nat \<Rightarrow> nat \<Rightarrow> (nat \<Rightarrow> nat \<Rightarrow> real) \<Rightarrow> (nat \<Rightarrow> nat \<Rightarrow> real) \<Rightarrow> (nat \<Rightarrow> nat \<Rightarrow> real) \<Rightarrow> real
     \<Rightarrow> (nat \<Rightarrow> nat \<Rightarrow> real) \<Rightarrow> real" where
  "quad_value K N F lt be m c th =
     (1 / 2) * (c - 2 * frob K F be (fdot N lt th)
                + frob K F (fdot N lt th) (fdot F (fdot N lt th) m))"

definition quad_grad ::
  "nat \<Rightarrow> nat \<Rightarrow> nat \<Rightarrow> (nat \<Rightarrow> nat \<Rightarrow> real) \<Rightarrow> (nat \<Rightarrow> nat \<Rightarrow> real) \<Rightarrow> (nat \<Rightarrow> nat \<Rightarrow> real)
     \<Rightarrow> (nat \<Rightarrow> nat \<Rightarrow> real) \<Rightarrow> nat \<Rightarrow> nat \<Rightarrow> real" where
  "quad_grad K N F lt be m th i j =
     - fdot K (\<lambda>p k. lt k p) (\<lambda>k j. be k j - fdot F (fdot N lt th) m k j) i j"

text \<open>
  The value, the gradient and the curvature along a direction \<open>d\<close> of one trial, with lead
  field \<open>G\<close>, sensor series \<open>b\<close> of \<open>T\<close> samples, covariates \<open>E\<close> and Cholesky factor \<open>L\<close>.
\<close>

definition trial_value ::
  "nat \<Rightarrow> nat \<Rightarrow> nat \<Rightarrow> nat \<Rightarrow> mat \<Rightarrow> mat \<Rightarrow> mat \<Rightarrow> mat \<Rightarrow> (nat \<Rightarrow> nat \<Rightarrow> real) \<Rightarrow> real" where
  "trial_value K N F T G b E L th =
     quad_value K N F (white L G) (fdot T (white L b) (\<lambda>i j. E ! i ! j))
       (fdot T (\<lambda>f t. E ! t ! f) (\<lambda>i j. E ! i ! j)) (frob K T (white L b) (white L b)) th"

definition trial_grad ::
  "nat \<Rightarrow> nat \<Rightarrow> nat \<Rightarrow> nat \<Rightarrow> mat \<Rightarrow> mat \<Rightarrow> mat \<Rightarrow> mat \<Rightarrow> (nat \<Rightarrow> nat \<Rightarrow> real) \<Rightarrow> nat \<Rightarrow> nat \<Rightarrow> real" where
  "trial_grad K N F T G b E L th =
     quad_grad K N F (white L G) (fdot T (white L b) (\<lambda>i j. E ! i ! j))
       (fdot T (\<lambda>f t. E ! t ! f) (\<lambda>i j. E ! i ! j)) th"

definition trial_curv ::
  "nat \<Rightarrow> nat \<Rightarrow> nat \<Rightarrow> nat \<Rightarrow> mat \<Rightarrow> mat \<Rightarrow> mat \<Rightarrow> (nat \<Rightarrow> nat \<Rightarrow> real) \<Rightarrow> real" where
  "trial_curv K N F T G E L d =
     (1 / 2) * frob K F (fdot N (white L G) d)
                 (fdot F (fdot N (white L G) d) (fdot T (\<lambda>f t. E ! t ! f) (\<lambda>i j. E ! i ! j)))"

text \<open>What a valid trial provides: its arrays, its Cholesky factor and its number of samples.\<close>

definition trial_facts ::
  "nat \<Rightarrow> nat \<Rightarrow> 'k DstRF \<Rightarrow> 'k REG_Data \<Rightarrow> 'k \<Rightarrow> mat \<Rightarrow> mat \<Rightarrow> mat \<Rightarrow> nat \<Rightarrow> bool" where
  "trial_facts K F self data key b E L T \<longleftrightarrow>
     meg data key = Some b \<and> covariates data key = Some E
     \<and> bind_err (lookup (Sigma_b self) key) cholesky = Inr L
     \<and> is_mat K T b \<and> is_mat T F E \<and> 0 < T
     \<and> lower_triangular L \<and> nrows L = K \<and> (\<forall>i<K. L ! i ! i \<noteq> 0)"

section \<open>The eigendecompositions of the source covariance update\<close>

text \<open>
  \<^verbatim>\<open>_compute_gamma_i\<close> calls \<^verbatim>\<open>linalg.eig\<close> twice: on \<open>z\<close>, and on the matrix \<open>eig_arg\<close> it
  builds from the first result.  What is asked of \<^verbatim>\<open>linalg.eig\<close> on a matrix \<open>A\<close> is an
  orthonormal eigendecomposition: as many eigenvalues as \<open>A\<close> has rows, a square matrix
  \<open>V\<close> with \<open>V\<^sup>T V = V V\<^sup>T = 1\<close>, and \<open>A V = V diag(e)\<close>.
\<close>

definition eig_arg :: "collaborators \<Rightarrow> mat \<Rightarrow> mat \<Rightarrow> mat" where
  "eig_arg ext z x =
     (let (e0, v) = linalg_eig ext z;
          e = map sqrt (clamp0 e0);
          temp = dot (transpose_m x) v;
          temp2 = dot (transpose_m temp) temp
      in mk_mat (nrows temp2) (ncols temp2) (\<lambda>i j. temp2 ! i ! j * e ! j * e ! i))"

definition orthonormal_eig :: "mat \<Rightarrow> vec \<times> mat \<Rightarrow> bool" where
  "orthonormal_eig A p =
     (case p of (e, V) \<Rightarrow>
        length e = nrows A \<and> is_mat (nrows A) (nrows A) V
        \<and> dot (transpose_m V) V = eye (nrows A) \<and> dot V (transpose_m V) = eye (nrows A)
        \<and> dot A V = mk_mat (nrows A) (nrows A) (\<lambda>i k. V ! i ! k * e ! k))"

text \<open>Positive semi-definite and positive definite, by the quadratic form.\<close>

definition pos_semidef :: "mat \<Rightarrow> bool" where
  "pos_semidef A \<longleftrightarrow> (\<forall>y. length y = nrows A \<longrightarrow> 0 \<le> quad_form A y)"

definition pos_def :: "mat \<Rightarrow> bool" where
  "pos_def A \<longleftrightarrow> (\<forall>y. length y = nrows A \<and> (\<exists>i<nrows A. y ! i \<noteq> 0) \<longrightarrow> 0 < quad_form A y)"

text \<open>
  Square matrices of order \<open>n\<close> as index functions that vanish outside the square, with
  the identity, diagonal matrices and the transpose.
\<close>

definition fmat :: "nat \<Rightarrow> mat \<Rightarrow> nat \<Rightarrow> nat \<Rightarrow> real" where
  "fmat n A i j = (if i < n \<and> j < n then A ! i ! j else 0)"

definition fid :: "nat \<Rightarrow> nat \<Rightarrow> nat \<Rightarrow> real" where
  "fid n i j = (if i = j \<and> i < n then 1 else 0)"

definition fdiag :: "nat \<Rightarrow> (nat \<Rightarrow> real) \<Rightarrow> nat \<Rightarrow> nat \<Rightarrow> real" where
  "fdiag n v i j = (if i = j \<and> i < n then v i else 0)"

definition ftr :: "(nat \<Rightarrow> nat \<Rightarrow> real) \<Rightarrow> nat \<Rightarrow> nat \<Rightarrow> real" where
  "ftr a i j = a j i"

definition sq :: "nat \<Rightarrow> (nat \<Rightarrow> nat \<Rightarrow> real) \<Rightarrow> bool" where
  "sq n a \<longleftrightarrow> (\<forall>i j. \<not> (i < n \<and> j < n) \<longrightarrow> a i j = 0)"


section \<open>Concrete inputs\<close>

text \<open>
  A smallest setting, used to evaluate the definitions: one sensor, one source of fixed
  orientation with lead field \<open>1\<close> and noise variance 2, and one trial \<open>a\<close> of two time samples
  with one covariate.  \<open>ex_model th\<close> is a model with coefficients \<open>th\<close>, in the
  state \<^verbatim>\<open>__init__\<close> and \<^verbatim>\<open>__init__iter\<close> produce: \<open>eta = 2\<close>, source covariance 2 and data
  covariance \<open>2 + 1 \<cdot> 2 \<cdot> 1 = 4\<close>.
\<close>

definition ex_data :: "string REG_Data" where
  "ex_data = \<lparr> filter_length = 2, basis = [[1], [1]],
       covariates = [''a'' \<mapsto> [[1], [2]]], meg = [''a'' \<mapsto> [[3, 4]]],
       datakeys = [''a''], tstep = Some 1, norm_factor = Some (sqrt 2),
       n_predictor_variables = 1, bbt = None, bE = None, EtE = None \<rparr>"

definition ex_model :: "mat \<Rightarrow> string DstRF" where
  "ex_model th = \<lparr> lead_field = [[1]], sources_n = 1, orientation = ''fixed'',
       lead_field_scaling = 1, noise_covariance = [[2]],
       n_iter = 1, n_iterc = 1, n_iterf = 1, eta = 2, init_sigma_b = [[4]],
       Gamma = [''a'' \<mapsto> [[[2]]]], Sigma_b = [''a'' \<mapsto> [[4]]], keys = [''a''],
       theta = Some th, mu = Some 1, err = [] \<rparr>"

text \<open>
  Collaborators that are exact on the inputs of the examples: the spectral norm of a
  \<open>1 \<times> 1\<close> matrix is the absolute value of its entry, a diagonal matrix has its diagonal
  as eigenvalues and the unit vectors as eigenvectors; the solver stub returns its
  starting point.
\<close>

definition ex_ext :: collaborators where
  "ex_ext = \<lparr> linalg_norm2 = (\<lambda>A. \<bar>A ! 0 ! 0\<bar>),
       linalg_eig = (\<lambda>A. (map (\<lambda>i. A ! i ! i) [0..<nrows A], eye (nrows A))),
       compute_gamma_c = (\<lambda>z a g. g),
       cproxg_group = (\<lambda>z t. z),
       Fasta_learn = (\<lambda>f g gradf proxg n th. Inr th) \<rparr>"

section \<open>Array lemmas\<close>

lemma sum_upt: "sum_list (map f [0..<n]) = (\<Sum>k<n. f k)"
  by (simp add: interv_sum_list_conv_sum_set_nat lessThan_atLeast0)

lemma bind_err_simps [simp]:
  "bind_err (Inl e) f = Inl e" "bind_err (Inr x) f = f x"
  by (simp_all add: bind_err_def)

lemma bind_err_eq_Inr:
  "bind_err m f = Inr y \<longleftrightarrow> (\<exists>x. m = Inr x \<and> f x = Inr y)"
  by (cases m) simp_all

lemma length_mk_mat [simp]: "length (mk_mat r c f) = r"
  by (simp add: mk_mat_def)

lemma nth_mk_mat_row: "i < r \<Longrightarrow> mk_mat r c f ! i = map (f i) [0..<c]"
  by (simp add: mk_mat_def)

lemma nth_mk_mat [simp]: "i < r \<Longrightarrow> j < c \<Longrightarrow> mk_mat r c f ! i ! j = f i j"
  by (simp add: mk_mat_def)

lemma is_mat_mk_mat [simp]: "is_mat r c (mk_mat r c f)"
  by (simp add: is_mat_def mk_mat_def list_all_iff)

lemma is_mat_length: "is_mat r c A \<Longrightarrow> length A = r"
  by (simp add: is_mat_def)

lemma is_mat_row: "is_mat r c A \<Longrightarrow> i < r \<Longrightarrow> length (A ! i) = c"
  by (simp add: is_mat_def list_all_length)

lemma is_mat_nrows: "is_mat r c A \<Longrightarrow> nrows A = r"
  by (simp add: is_mat_def nrows_def)

lemma is_mat_ncols: "is_mat r c A \<Longrightarrow> 0 < r \<Longrightarrow> ncols A = c"
  by (cases A) (auto simp: is_mat_def ncols_def)

lemma is_mat_ncols0: "is_mat 0 c A \<Longrightarrow> ncols A = 0"
  by (simp add: is_mat_def ncols_def)

lemma mat_eqI:
  assumes "is_mat r c A" "is_mat r c B"
    and "\<And>i j. i < r \<Longrightarrow> j < c \<Longrightarrow> A ! i ! j = B ! i ! j"
  shows "A = B"
proof (rule nth_equalityI)
  show "length A = length B" using assms by (simp add: is_mat_def)
next
  fix i assume "i < length A"
  then have i: "i < r" using assms(1) by (simp add: is_mat_def)
  show "A ! i = B ! i"
  proof (rule nth_equalityI)
    show "length (A ! i) = length (B ! i)"
      using assms(1,2) i by (simp add: is_mat_row)
  next
    fix j assume "j < length (A ! i)"
    then have "j < c" using assms(1) i by (simp add: is_mat_row)
    then show "A ! i ! j = B ! i ! j" using assms(3) i by simp
  qed
qed

lemma mk_mat_cong:
  "(\<And>i j. i < r \<Longrightarrow> j < c \<Longrightarrow> f i j = f2 i j) \<Longrightarrow> mk_mat r c f = mk_mat r c f2"
  by (rule mat_eqI [of r c]) simp_all

lemma mk_mat_eq: "is_mat r c A \<Longrightarrow> mk_mat r c (\<lambda>i j. A ! i ! j) = A"
  by (rule mat_eqI [of r c]) simp_all

lemma nrows_mk_mat [simp]: "nrows (mk_mat r c f) = r"
  by (simp add: nrows_def)

lemma ncols_mk_mat [simp]: "0 < r \<Longrightarrow> ncols (mk_mat r c f) = c"
  by (rule is_mat_ncols [of r]) simp_all

lemma mk_mat_0 [simp]: "mk_mat 0 c f = []"
  by (simp add: mk_mat_def)

text \<open>The operations in index form, on arrays of the right shapes.\<close>

lemma dot_mk:
  assumes "is_mat r n A" "is_mat n c B" "0 < n"
  shows "dot A B = mk_mat r c (\<lambda>i j. \<Sum>k<n. A ! i ! k * B ! k ! j)"
proof (cases "r = 0")
  case True
  then show ?thesis using assms(1) by (simp add: dot_def is_mat_nrows)
next
  case False
  then have "ncols A = n" "ncols B = c" "nrows A = r"
    using assms by (simp_all add: is_mat_ncols is_mat_nrows)
  then show ?thesis by (simp add: dot_def sum_upt)
qed

lemma np_dot_mk:
  assumes "is_mat r n A" "is_mat n c B" "0 < n" "0 < r"
  shows "np_dot A B = Inr (mk_mat r c (\<lambda>i j. \<Sum>k<n. A ! i ! k * B ! k ! j))"
  using assms by (simp add: np_dot_def dot_mk is_mat_ncols is_mat_nrows)

lemma transpose_mk:
  assumes "is_mat r c A" "0 < r"
  shows "transpose_m A = mk_mat c r (\<lambda>i j. A ! j ! i)"
  using assms by (simp add: transpose_m_def is_mat_ncols is_mat_nrows)

lemma is_mat_map_map: "is_mat r c A \<Longrightarrow> is_mat r c (map (map f) A)"
  by (simp add: is_mat_def list_all_iff)

lemma nth_map_map: "is_mat r c A \<Longrightarrow> i < r \<Longrightarrow> j < c \<Longrightarrow> map (map f) A ! i ! j = f (A ! i ! j)"
  by (simp add: is_mat_length is_mat_row)

lemma map_map_mk: "is_mat r c A \<Longrightarrow> map (map f) A = mk_mat r c (\<lambda>i j. f (A ! i ! j))"
  by (rule mat_eqI [of r c]) (simp_all add: is_mat_map_map nth_map_map)

lemma msum_mk: "msum (mk_mat r c f) = (\<Sum>i<r. \<Sum>j<c. f i j)"
proof -
  have "map sum_list (mk_mat r c f) = map (\<lambda>i. \<Sum>j<c. f i j) [0..<r]"
    by (simp add: mk_mat_def sum_upt)
  then show ?thesis by (simp add: msum_def sum_upt)
qed

lemma msum_eq: "is_mat r c A \<Longrightarrow> msum A = (\<Sum>i<r. \<Sum>j<c. A ! i ! j)"
  using msum_mk [of r c "\<lambda>i j. A ! i ! j"] by (simp add: mk_mat_eq)

lemma np_binop_mk:
  assumes "is_mat r c A" "is_mat r c B"
  shows "np_binop f A B = Inr (mk_mat r c (\<lambda>i j. f (A ! i ! j) (B ! i ! j)))"
proof (cases "r = 0")
  case True
  then show ?thesis
    using assms by (simp add: np_binop_def bc_dim_def is_mat_nrows is_mat_ncols0)
next
  case False
  then have d: "ncols A = c" "ncols B = c" "nrows A = r" "nrows B = r"
    using assms by (simp_all add: is_mat_ncols is_mat_nrows)
  have "mk_mat r c (\<lambda>i j. f (bc_get A i j) (bc_get B i j))
      = mk_mat r c (\<lambda>i j. f (A ! i ! j) (B ! i ! j))"
    by (rule mk_mat_cong) (auto simp: bc_get_def d)
  then show ?thesis by (simp add: np_binop_def bc_dim_def d)
qed



lemma trace_mk: "trace (mk_mat n n f) = (\<Sum>i<n. f i i)"
proof -
  have "map (\<lambda>i. mk_mat n n f ! i ! i) [0..<n] = map (\<lambda>i. f i i) [0..<n]"
    by (rule map_cong) simp_all
  then show ?thesis
    by (cases "n = 0") (simp_all add: trace_def sum_upt nrows_def)
qed

lemma scale_mk: "is_mat r c A \<Longrightarrow> scale a A = mk_mat r c (\<lambda>i j. a * A ! i ! j)"
  unfolding scale_def by (rule map_map_mk)

lemma div_by_mk: "is_mat r c A \<Longrightarrow> div_by A a = mk_mat r c (\<lambda>i j. A ! i ! j / a)"
  unfolding div_by_def by (rule map_map_mk)

lemma is_mat_div_by: "is_mat r c A \<Longrightarrow> is_mat r c (div_by A a)"
  unfolding div_by_def by (rule is_mat_map_map)

lemma np_add_mk:
  "is_mat r c A \<Longrightarrow> is_mat r c B \<Longrightarrow> np_add A B = Inr (mk_mat r c (\<lambda>i j. A ! i ! j + B ! i ! j))"
  by (simp add: np_add_def np_binop_mk)

lemma np_sub_mk:
  "is_mat r c A \<Longrightarrow> is_mat r c B \<Longrightarrow> np_sub A B = Inr (mk_mat r c (\<lambda>i j. A ! i ! j - B ! i ! j))"
  by (simp add: np_sub_def np_binop_mk)

text \<open>The Gram matrix \<open>A A\<^sup>T\<close>.\<close>

lemma gram_mk:
  assumes "is_mat r n A" "0 < r" "0 < n"
  shows "np_dot A (transpose_m A) = Inr (mk_mat r r (\<lambda>i j. \<Sum>k<n. A ! i ! k * A ! j ! k))"
proof -
  have t: "transpose_m A = mk_mat n r (\<lambda>i j. A ! j ! i)" by (rule transpose_mk [OF assms(1,2)])
  have "np_dot A (transpose_m A) = Inr (mk_mat r r (\<lambda>i j. \<Sum>k<n. A ! i ! k * transpose_m A ! k ! j))"
    unfolding t by (rule np_dot_mk [OF assms(1) _ assms(3,2)]) simp
  also have "mk_mat r r (\<lambda>i j. \<Sum>k<n. A ! i ! k * transpose_m A ! k ! j)
      = mk_mat r r (\<lambda>i j. \<Sum>k<n. A ! i ! k * A ! j ! k)"
    unfolding t by (rule mk_mat_cong) simp
  finally show ?thesis .
qed


section \<open>Lemmas on the triangular solve and the Cholesky factor\<close>


lemma length_forward_sub [simp]: "length (forward_sub L b n) = n"
  by (induction n) (simp_all add: Let_def)

lemma forward_sub_prefix:
  "k < i \<Longrightarrow> i \<le> n \<Longrightarrow> forward_sub L b n ! k = forward_sub L b i ! k"
proof (induction n)
  case 0
  then show ?case by simp
next
  case (Suc n)
  show ?case
  proof (cases "i = Suc n")
    case True
    then show ?thesis by simp
  next
    case False
    then have "i \<le> n" using Suc.prems by simp
    then have "forward_sub L b n ! k = forward_sub L b i ! k"
      using Suc by simp
    moreover have "k < n" using \<open>i \<le> n\<close> Suc.prems by simp
    ultimately show ?thesis by (simp add: Let_def nth_append)
  qed
qed

lemma forward_sub_nth:
  assumes "i < n"
  shows "forward_sub L b n ! i =
     (b ! i - (\<Sum>k<i. L ! i ! k * forward_sub L b n ! k)) / L ! i ! i"
proof -
  have "forward_sub L b n ! i = forward_sub L b (Suc i) ! i"
    using assms by (intro forward_sub_prefix) simp_all
  also have "\<dots> = (b ! i - (\<Sum>k<i. L ! i ! k * forward_sub L b i ! k)) / L ! i ! i"
    by (simp add: Let_def nth_append sum_upt)
  also have "(\<Sum>k<i. L ! i ! k * forward_sub L b i ! k)
           = (\<Sum>k<i. L ! i ! k * forward_sub L b n ! k)"
    using assms by (intro sum.cong refl) (simp add: forward_sub_prefix [of _ i n])
  finally show ?thesis .
qed

text \<open>The solution satisfies the triangular system.\<close>

lemma forward_sub_solves:
  assumes "i < n" "L ! i ! i \<noteq> 0"
  shows "(\<Sum>k<Suc i. L ! i ! k * forward_sub L b n ! k) = b ! i"
  using assms by (simp add: forward_sub_nth [OF assms(1), of L b])

text \<open>Forward substitution only reads the rows and right-hand side entries before \<open>n\<close>.\<close>

lemma forward_sub_cong:
  assumes "\<And>i. i < n \<Longrightarrow> L ! i = L' ! i" "\<And>i. i < n \<Longrightarrow> b ! i = b' ! i"
  shows "forward_sub L b n = forward_sub L' b' n"
  using assms by (induction n) (simp_all add: Let_def)

text \<open>A triangular system with nonzero diagonal has at most one solution.\<close>

lemma triangular_unique:
  fixes x y :: "nat \<Rightarrow> real"
  assumes eq: "\<And>i. i < n \<Longrightarrow> (\<Sum>k<Suc i. l i k * x k) = (\<Sum>k<Suc i. l i k * y k)"
    and d: "\<And>i. i < n \<Longrightarrow> l i i \<noteq> 0"
    and "i < n"
  shows "x i = y i"
  using \<open>i < n\<close>
proof (induction i rule: less_induct)
  case (less i)
  have "(\<Sum>k<i. l i k * x k) = (\<Sum>k<i. l i k * y k)"
    using less by (intro sum.cong refl) simp
  then have "l i i * x i = l i i * y i"
    using eq [OF less.prems] by simp
  then show ?case using d [OF less.prems] by simp
qed



lemma lower_triangularD:
  assumes "lower_triangular L" "nrows L = n"
  shows "is_mat n n L" and "\<And>i j. i < j \<Longrightarrow> j < n \<Longrightarrow> L ! i ! j = 0"
proof -
  show "is_mat n n L" using assms by (simp add: lower_triangular_def)
  fix i j :: nat assume "i < j" "j < n"
  then show "L ! i ! j = 0"
    using assms by (auto simp: lower_triangular_def list_all_iff)
qed

lemma lower_triangularI:
  assumes "is_mat n n L" "\<And>i j. i < j \<Longrightarrow> j < n \<Longrightarrow> L ! i ! j = 0"
  shows "lower_triangular L"
  using assms by (auto simp: lower_triangular_def list_all_iff is_mat_nrows)

lemma sum_lower:
  fixes f :: "nat \<Rightarrow> real"
  assumes "i < n" "\<And>k. i < k \<Longrightarrow> k < n \<Longrightarrow> f k = 0"
  shows "(\<Sum>k<n. f k) = (\<Sum>k<Suc i. f k)"
proof (rule sum.mono_neutral_right)
  show "finite {..<n}" by simp
  show "{..<Suc i} \<subseteq> {..<n}" using assms(1) by auto
  show "\<forall>k\<in>{..<n} - {..<Suc i}. f k = 0" using assms(2) by auto
qed

lemma solve_mk:
  assumes "is_mat n n L" "\<And>i. i < n \<Longrightarrow> L ! i ! i \<noteq> 0" "is_mat n c B" "0 < n"
  shows "solve L B = Inr (mk_mat n c (\<lambda>i j. forward_sub L (map (\<lambda>r. r ! j) B) n ! i))"
proof -
  have "\<not> list_ex (\<lambda>r. length r \<noteq> nrows L) L"
    using assms(1) by (auto simp: list_ex_iff is_mat_def nrows_def list_all_iff)
  moreover have "\<not> list_ex (\<lambda>i. L ! i ! i = 0) [0..<nrows L]"
    using assms(1,2) by (auto simp: list_ex_iff is_mat_nrows)
  ultimately show ?thesis
    using assms by (simp add: solve_def is_mat_nrows is_mat_ncols)
qed

lemma solve_correct:
  assumes L: "lower_triangular L" "nrows L = n" "\<And>i. i < n \<Longrightarrow> L ! i ! i \<noteq> 0"
    and B: "is_mat n c B" and n: "0 < n"
  shows "\<exists>X. solve L B = Inr X \<and> is_mat n c X \<and> dot L X = B"
proof -
  note lt = lower_triangularD [OF L(1,2)]
  let ?X = "mk_mat n c (\<lambda>i j. forward_sub L (map (\<lambda>r. r ! j) B) n ! i)"
  have s: "solve L B = Inr ?X" using solve_mk [OF lt(1) L(3) B n] .
  have "dot L ?X = B"
  proof (rule mat_eqI [of n c])
    show "is_mat n c (dot L ?X)" by (simp add: dot_mk [OF lt(1) _ n, of c])
    show "is_mat n c B" by fact
    fix i j assume i: "i < n" and j: "j < c"
    have "dot L ?X ! i ! j = (\<Sum>k<n. L ! i ! k * forward_sub L (map (\<lambda>r. r ! j) B) n ! k)"
      using i j by (simp add: dot_mk [OF lt(1) _ n, of c])
    also have "\<dots> = (\<Sum>k<Suc i. L ! i ! k * forward_sub L (map (\<lambda>r. r ! j) B) n ! k)"
      using i lt(2) by (intro sum_lower) simp_all
    also have "\<dots> = map (\<lambda>r. r ! j) B ! i"
      using i L(3) by (intro forward_sub_solves) simp_all
    also have "\<dots> = B ! i ! j" using i B by (simp add: is_mat_length)
    finally show "dot L ?X ! i ! j = B ! i ! j" .
  qed
  then show ?thesis using s by auto
qed

lemma dot_lower_unique:
  assumes L: "lower_triangular L" "nrows L = n" "\<And>i. i < n \<Longrightarrow> L ! i ! i \<noteq> 0"
    and X: "is_mat n c X" and Y: "is_mat n c Y" and n: "0 < n"
    and eq: "dot L X = dot L Y"
  shows "X = Y"
proof (rule mat_eqI [OF X Y])
  note lt = lower_triangularD [OF L(1,2)]
  fix i j assume i: "i < n" and j: "j < c"
  have e: "(\<Sum>k<Suc p. L ! p ! k * X ! k ! j) = (\<Sum>k<Suc p. L ! p ! k * Y ! k ! j)"
    if p: "p < n" for p
  proof -
    have "(\<Sum>k<n. L ! p ! k * X ! k ! j) = (\<Sum>k<n. L ! p ! k * Y ! k ! j)"
      using arg_cong [OF eq, of "\<lambda>M. M ! p ! j"] p j
      by (simp add: dot_mk [OF lt(1) X n] dot_mk [OF lt(1) Y n])
    moreover have "(\<Sum>k<n. L ! p ! k * X ! k ! j) = (\<Sum>k<Suc p. L ! p ! k * X ! k ! j)"
      using p lt(2) by (intro sum_lower) simp_all
    moreover have "(\<Sum>k<n. L ! p ! k * Y ! k ! j) = (\<Sum>k<Suc p. L ! p ! k * Y ! k ! j)"
      using p lt(2) by (intro sum_lower) simp_all
    ultimately show ?thesis by simp
  qed
  show "X ! i ! j = Y ! i ! j"
    by (rule triangular_unique [of n "\<lambda>p k. L ! p ! k" "\<lambda>k. X ! k ! j" "\<lambda>k. Y ! k ! j"])
       (use e L(3) i in auto)
qed

lemma solve_eqI:
  assumes L: "lower_triangular L" "nrows L = n" "\<And>i. i < n \<Longrightarrow> L ! i ! i \<noteq> 0"
    and X: "is_mat n c X" and n: "0 < n"
  shows "solve L (dot L X) = Inr X"
proof -
  note lt = lower_triangularD [OF L(1,2)]
  have B: "is_mat n c (dot L X)" by (simp add: dot_mk [OF lt(1) X n])
  from solve_correct [OF L B n] obtain X0 where
    "solve L (dot L X) = Inr X0" "is_mat n c X0" "dot L X0 = dot L X" by blast
  then show ?thesis using dot_lower_unique [OF L _ X n, of X0] by simp
qed



lemma sum_list_squares_nth: "sum_list (map (\<lambda>a. a * a) r) = (\<Sum>k<length r. r ! k * r ! k)"
proof -
  have "map (\<lambda>a. a * a) r = map (\<lambda>k. r ! k * r ! k) [0..<length r]"
    by (rule nth_equalityI) simp_all
  then show ?thesis by (simp add: sum_upt)
qed

lemma chol_rows_Suc:
  assumes "chol_rows A (Suc n) = Inr L1"
  shows "\<exists>L. chol_rows A n = Inr L
     \<and> 0 < A ! n ! n - sum_list (map (\<lambda>a. a * a) (forward_sub L (A ! n) n))
     \<and> L1 = L @ [forward_sub L (A ! n) n
                  @ [sqrt (A ! n ! n - sum_list (map (\<lambda>a. a * a) (forward_sub L (A ! n) n)))]
                  @ replicate (nrows A - Suc n) 0]"
  using assms by (auto simp: bind_err_eq_Inr Let_def split: if_splits)

lemma chol_rows_props:
  assumes "chol_rows A n = Inr L" "n \<le> nrows A"
  shows "length L = n
    \<and> (\<forall>i<n. length (L ! i) = nrows A \<and> 0 < L ! i ! i
          \<and> (\<forall>j. i < j \<and> j < nrows A \<longrightarrow> L ! i ! j = 0)
          \<and> (\<forall>j\<le>i. (\<Sum>k<Suc j. L ! i ! k * L ! j ! k) = A ! i ! j))"
  using assms
proof (induction n arbitrary: L)
  case 0
  then show ?case by simp
next
  case (Suc n)
  from chol_rows_Suc [OF Suc.prems(1)] obtain L0 where
    L0: "chol_rows A n = Inr L0"
    and d: "0 < A ! n ! n - sum_list (map (\<lambda>a. a * a) (forward_sub L0 (A ! n) n))"
    and L: "L = L0 @ [forward_sub L0 (A ! n) n
                  @ [sqrt (A ! n ! n - sum_list (map (\<lambda>a. a * a) (forward_sub L0 (A ! n) n)))]
                  @ replicate (nrows A - Suc n) 0]"
    by blast
  have n: "n \<le> nrows A" "n < nrows A" using Suc.prems(2) by simp_all
  note IH = Suc.IH [OF L0 n(1)]
  define r where "r = forward_sub L0 (A ! n) n"
  define dd where "dd = A ! n ! n - sum_list (map (\<lambda>a. a * a) r)"
  define row where "row = r @ [sqrt dd] @ replicate (nrows A - Suc n) 0"
  have lr: "length r = n" by (simp add: r_def)
  have Lrow: "L = L0 @ [row]" using L by (simp add: row_def dd_def r_def)
  have dpos: "0 < dd" using d by (simp add: dd_def r_def)
  have len0: "length L0 = n" using IH by simp
  have old: "L ! i = L0 ! i" if "i < n" for i
    using that len0 by (simp add: Lrow nth_append)
  have new: "L ! n = row" using len0 by (simp add: Lrow nth_append)
  have row_lt: "row ! k = r ! k" if "k < n" for k
    using that lr by (simp add: row_def nth_append)
  have row_n: "row ! n = sqrt dd" using lr by (simp add: row_def nth_append)
  have row_gt: "row ! j = 0" if "n < j" "j < nrows A" for j
    using that lr by (simp add: row_def nth_append)
  have row_len: "length row = nrows A" using lr n(2) by (simp add: row_def)
  have prod_lt: "(\<Sum>k<Suc j. row ! k * L ! j ! k) = A ! n ! j" if j: "j < n" for j
  proof -
    have "(\<Sum>k<Suc j. row ! k * L ! j ! k) = (\<Sum>k<Suc j. L0 ! j ! k * r ! k)"
      using j by (intro sum.cong refl) (simp add: row_lt old mult.commute)
    also have "\<dots> = A ! n ! j"
      unfolding r_def using j IH by (intro forward_sub_solves) auto
    finally show ?thesis .
  qed
  have prod_n: "(\<Sum>k<Suc n. row ! k * row ! k) = A ! n ! n"
  proof -
    have "(\<Sum>k<n. row ! k * row ! k) = (\<Sum>k<n. r ! k * r ! k)"
      by (intro sum.cong refl) (simp add: row_lt)
    also have "\<dots> = sum_list (map (\<lambda>a. a * a) r)"
      by (simp add: sum_list_squares_nth lr)
    finally show ?thesis using dpos by (simp add: row_n dd_def)
  qed
  have "length (L ! i) = nrows A \<and> 0 < L ! i ! i
          \<and> (\<forall>j. i < j \<and> j < nrows A \<longrightarrow> L ! i ! j = 0)
          \<and> (\<forall>j\<le>i. (\<Sum>k<Suc j. L ! i ! k * L ! j ! k) = A ! i ! j)"
    if i: "i < Suc n" for i
  proof (cases "i = n")
    case True
    have "(\<Sum>k<Suc j. row ! k * L ! j ! k) = A ! n ! j" if "j \<le> n" for j
      using that prod_lt prod_n new by (cases "j = n") simp_all
    then show ?thesis
      using True new row_len row_n dpos row_gt by simp
  next
    case False
    then have "i < n" using i by simp
    moreover have "L ! j = L0 ! j" if "j \<le> i" for j using that \<open>i < n\<close> old by simp
    ultimately show ?thesis using IH old by simp
  qed
  then show ?case using len0 Lrow by simp
qed



lemma cholesky_props:
  assumes "cholesky A = Inr L" "nrows A = n"
  shows "is_mat n n A" "lower_triangular L" "nrows L = n"
    "\<And>i. i < n \<Longrightarrow> 0 < L ! i ! i"
    "\<And>i j. i < n \<Longrightarrow> j \<le> i \<Longrightarrow> (\<Sum>k<n. L ! i ! k * L ! j ! k) = A ! i ! j"
proof -
  have sq: "\<not> list_ex (\<lambda>r. length r \<noteq> nrows A) A" and c: "chol_rows A (nrows A) = Inr L"
    using assms(1) by (auto simp: cholesky_def split: if_splits)
  show A: "is_mat n n A"
    using sq assms(2) by (auto simp: is_mat_def list_ex_iff list_all_iff nrows_def)
  note p = chol_rows_props [OF c order_refl, unfolded assms(2)]
  show n: "nrows L = n" using p by (simp add: nrows_def)
  have m: "is_mat n n L"
    using p by (simp add: is_mat_def list_all_length)
  show lt: "lower_triangular L"
    by (rule lower_triangularI [OF m]) (use p in auto)
  show "0 < L ! i ! i" if "i < n" for i using p that by simp
  show "(\<Sum>k<n. L ! i ! k * L ! j ! k) = A ! i ! j" if "i < n" "j \<le> i" for i j
  proof -
    have "(\<Sum>k<n. L ! i ! k * L ! j ! k) = (\<Sum>k<Suc j. L ! i ! k * L ! j ! k)"
      using that lower_triangularD(2) [OF lt n] by (intro sum_lower) simp_all
    then show ?thesis using p that by simp
  qed
qed

lemma symmetricD:
  assumes "symmetric A" "nrows A = n"
  shows "is_mat n n A" "\<And>i j. i < n \<Longrightarrow> j < n \<Longrightarrow> A ! i ! j = A ! j ! i"
  using assms by (auto simp: symmetric_def list_all_iff)

lemma cholesky_factor:
  assumes "cholesky A = Inr L" "nrows A = n" "symmetric A" "i < n" "j < n"
  shows "(\<Sum>k<n. L ! i ! k * L ! j ! k) = A ! i ! j"
proof (cases "j \<le> i")
  case True
  then show ?thesis using cholesky_props(5) [OF assms(1,2) assms(4)] by simp
next
  case False
  then have "i \<le> j" by simp
  then have "(\<Sum>k<n. L ! j ! k * L ! i ! k) = A ! j ! i"
    using cholesky_props(5) [OF assms(1,2) assms(5)] by simp
  then show ?thesis
    using symmetricD(2) [OF assms(3,2) assms(4,5)] by (simp add: mult.commute)
qed

lemma cholesky_dot_transpose:
  assumes "cholesky A = Inr L" "nrows A = n" "symmetric A" "0 < n"
  shows "dot L (transpose_m L) = A"
proof (rule mat_eqI [of n n])
  note p = cholesky_props [OF assms(1,2)]
  note m = lower_triangularD(1) [OF p(2,3)]
  have t: "transpose_m L = mk_mat n n (\<lambda>i j. L ! j ! i)"
    using transpose_mk [OF m assms(4)] .
  show "is_mat n n (dot L (transpose_m L))"
    unfolding t by (simp add: dot_mk [OF m _ assms(4), of n])
  show "is_mat n n A" by (rule p(1))
  fix i j assume ij: "i < n" "j < n"
  have "dot L (transpose_m L) ! i ! j = (\<Sum>k<n. L ! i ! k * L ! j ! k)"
    unfolding t using ij by (simp add: dot_mk [OF m _ assms(4), of n])
  then show "dot L (transpose_m L) ! i ! j = A ! i ! j"
    using cholesky_factor [OF assms(1-3) ij] by simp
qed

text \<open>A matrix with a Cholesky factor is positive definite.\<close>

lemma quad_form_eq: "length x = n \<Longrightarrow> quad_form A x = (\<Sum>i<n. \<Sum>j<n. x ! i * A ! i ! j * x ! j)"
  by (simp add: quad_form_def sum_upt)

lemma upper_system_zero:
  fixes x :: "nat \<Rightarrow> real"
  assumes z: "\<And>k. k < n \<Longrightarrow> (\<Sum>i<n. x i * l i k) = 0"
    and lt: "\<And>i k. i < k \<Longrightarrow> k < n \<Longrightarrow> l i k = 0"
    and d: "\<And>i. i < n \<Longrightarrow> l i i \<noteq> 0"
    and "m < n"
  shows "x m = 0"
proof (rule ccontr)
  assume "x m \<noteq> 0"
  define M where "M = Max {i. i < n \<and> x i \<noteq> 0}"
  have fin: "finite {i. i < n \<and> x i \<noteq> 0}" by simp
  have ne: "{i. i < n \<and> x i \<noteq> 0} \<noteq> {}" using \<open>x m \<noteq> 0\<close> \<open>m < n\<close> by auto
  have M: "M < n" "x M \<noteq> 0" using Max_in [OF fin ne] by (auto simp: M_def)
  have top: "x i = 0" if "M < i" "i < n" for i
  proof (rule ccontr)
    assume "x i \<noteq> 0"
    then have "i \<le> M" unfolding M_def using that fin by (intro Max_ge) auto
    then show False using that by simp
  qed
  have "(\<Sum>i<n. x i * l i M) = (\<Sum>i\<in>{M}. x i * l i M)"
  proof (rule sum.mono_neutral_right)
    show "\<forall>i\<in>{..<n} - {M}. x i * l i M = 0"
    proof
      fix i assume "i \<in> {..<n} - {M}"
      then have "i < n" "i \<noteq> M" by auto
      then show "x i * l i M = 0"
        using top [of i] lt [of i M] M(1) by (cases "i < M") auto
    qed
  qed (use M in auto)
  then have "x M * l M M = 0" using z [OF M(1)] by simp
  then show False using M d by simp
qed

lemma cholesky_positive_definite:
  assumes "cholesky A = Inr L" "nrows A = n" "symmetric A"
    and x: "length x = n" "i < n" "x ! i \<noteq> 0"
  shows "0 < quad_form A x"
proof -
  note p = cholesky_props [OF assms(1,2)]
  note lt = lower_triangularD [OF p(2,3)]
  define y where "y k = (\<Sum>i<n. x ! i * L ! i ! k)" for k
  have "quad_form A x = (\<Sum>i<n. \<Sum>j<n. x ! i * (\<Sum>k<n. L ! i ! k * L ! j ! k) * x ! j)"
    unfolding quad_form_eq [OF x(1)]
    by (intro sum.cong refl) (simp add: cholesky_factor [OF assms(1-3)])
  also have "\<dots> = (\<Sum>i<n. \<Sum>j<n. \<Sum>k<n. (x ! i * L ! i ! k) * (x ! j * L ! j ! k))"
    by (intro sum.cong refl) (simp add: sum_distrib_left sum_distrib_right mult_ac)
  also have "\<dots> = (\<Sum>k<n. \<Sum>i<n. \<Sum>j<n. (x ! i * L ! i ! k) * (x ! j * L ! j ! k))"
  proof -
    have "(\<Sum>i<n. \<Sum>j<n. \<Sum>k<n. (x ! i * L ! i ! k) * (x ! j * L ! j ! k))
        = (\<Sum>i<n. \<Sum>k<n. \<Sum>j<n. (x ! i * L ! i ! k) * (x ! j * L ! j ! k))"
      by (rule sum.cong [OF refl]) (rule sum.swap)
    also have "\<dots> = (\<Sum>k<n. \<Sum>i<n. \<Sum>j<n. (x ! i * L ! i ! k) * (x ! j * L ! j ! k))"
      by (rule sum.swap)
    finally show ?thesis .
  qed
  also have "\<dots> = (\<Sum>k<n. y k * y k)"
    unfolding y_def by (intro sum.cong refl) (simp add: sum_product)
  finally have q: "quad_form A x = (\<Sum>k<n. y k * y k)" .
  have "\<exists>k<n. y k \<noteq> 0"
  proof (rule ccontr)
    assume "\<not> (\<exists>k<n. y k \<noteq> 0)"
    then have z: "\<And>k. k < n \<Longrightarrow> (\<Sum>i<n. x ! i * L ! i ! k) = 0" by (simp add: y_def)
    have "x ! i = 0"
      by (rule upper_system_zero [of n "\<lambda>i. x ! i" "\<lambda>i k. L ! i ! k", OF z])
         (use lt(2) p(4) x(2) in force)+
    then show False using x(3) by simp
  qed
  then obtain k where k: "k < n" "y k \<noteq> 0" by blast
  have "0 < (\<Sum>k<n. y k * y k)"
    by (rule sum_pos2 [of _ k]) (use k in \<open>auto simp: zero_less_mult_iff not_less\<close>)
  then show ?thesis using q by simp
qed


section \<open>Lemmas on the regression data container\<close>


lemma length_windows: "length (windows M w) = length w + 1 - M"
  by (simp add: windows_def)

lemma ncols_windows: "0 < M \<Longrightarrow> M \<le> length w \<Longrightarrow> ncols (windows M w) = M"
proof -
  assume a: "0 < M" "M \<le> length w"
  then have "[0..<length w + 1 - M] = 0 # [1..<length w + 1 - M]"
    by (simp add: upt_conv_Cons)
  then show ?thesis using a by (simp add: windows_def ncols_def)
qed

lemma dot_windows_ok:
  assumes "W \<noteq> []" "\<forall>w\<in>set W. M \<le> length w" "0 < M" "nrows b = M"
  shows "dot_windows (map (windows M) W) b = Inr (map (\<lambda>w. dot (windows M w) b) W)"
  using assms by (simp add: dot_windows_def list_ex_iff ncols_windows comp_def)

lemma ncols_slice_from:
  assumes "is_mat K T A" "0 < K" "0 < n"
  shows "ncols (slice_from A n) = T - (n - 1)"
proof -
  obtain r rs where A: "A = r # rs" using assms by (cases A) (auto simp: is_mat_def)
  then have "length r = T" using assms(1) by (simp add: is_mat_def)
  then show ?thesis using assms(3) A by (simp add: slice_from_def ncols_def)
qed

lemma length_side_by_side: "length (side_by_side C) = nrows (hd C)"
  by (simp add: side_by_side_def)

lemma load_ok:
  fixes c :: "'k REG_Data"
  assumes b: "nrows (basis c) = filter_length c" "0 < filter_length c"
    and m: "is_mat K T (nd_data m)" "0 < K" "filter_length c \<le> T"
    and s: "stim_array stim \<noteq> []" "\<forall>w\<in>set (stim_array stim). filter_length c \<le> length w"
  shows "load c key m stim False =
    Inr (c \<lparr> datakeys := datakeys c @ [key],
             tstep := (if tstep c = None then Some (nd_tstep m) else tstep c),
             meg := (meg c)(key \<mapsto> div_by (slice_from (nd_data m) (filter_length c))
                                    (sqrt (real (T + 1 - filter_length c)))),
             norm_factor := (if norm_factor c = None then Some (sqrt (real (T + 1 - filter_length c)))
                             else norm_factor c),
             n_predictor_variables := length (stim_array stim),
             covariates := (covariates c)(key \<mapsto> side_by_side
                (map (\<lambda>w. div_by (dot (windows (filter_length c) w) (basis c))
                               (sqrt (real (T + 1 - filter_length c)))) (stim_array stim))) \<rparr>)"
proof -
  let ?fl = "filter_length c"
  have nc: "ncols (slice_from (nd_data m) ?fl) = T + 1 - ?fl"
    using ncols_slice_from [OF m(1,2) b(2)] b m(3) by simp
  have pos: "sqrt (real (T + 1 - ?fl)) \<noteq> 0" using m(3) by simp
  show ?thesis
    unfolding load_def Let_def covariate_from_stim_def b(1) nc
    using dot_windows_ok [OF s(1) s(2) b(2) b(1)] pos
    by (simp add: comp_def)
qed



lemma length_linspace [simp]: "length (linspace a b n) = n"
  by (simp add: linspace_def)

lemma linspace_nonempty: "0 < n \<Longrightarrow> linspace a b n \<noteq> []"
  by (auto simp: linspace_def)

lemma nrows_div_by [simp]: "nrows (div_by A c) = nrows A"
  by (simp add: nrows_def div_by_def)

lemma gaussian_basis_ok:
  assumes "2 \<le> n" "length x = n"
  shows "\<exists>b. gaussian_basis n x = Inr b \<and> nrows b = n"
proof -
  have x: "x \<noteq> []" using assms by auto
  have "ncols (map (\<lambda>m. map (\<lambda>t. exp (- ((t - m) ^ 2) / (2 * (85 / 10) ^ 2))) x)
          (linspace (last x / real n) (last x * (1 - 1 / real n)) (n - 1))) = n"
  proof -
    have "linspace (last x / real n) (last x * (1 - 1 / real n)) (n - 1) \<noteq> []"
      using assms(1) by (intro linspace_nonempty) simp
    then obtain m ms where "linspace (last x / real n) (last x * (1 - 1 / real n)) (n - 1) = m # ms"
      by (cases "linspace (last x / real n) (last x * (1 - 1 / real n)) (n - 1)") simp_all
    then show ?thesis using assms(2) by (simp add: ncols_def)
  qed
  then show ?thesis
    using assms x by (simp add: gaussian_basis_def Let_def transpose_m_def)
qed

lemma gaussian_basis_fails: "n < 2 \<Longrightarrow> \<exists>e. gaussian_basis n x = Inl e"
  by (cases "n = 0") (auto simp: gaussian_basis_def)

lemma REG_Data_init_Inr:
  assumes "REG_Data_init fl = Inr (c :: 'k REG_Data)"
  shows "2 \<le> fl \<and> filter_length c = fl \<and> nrows (basis c) = fl \<and> datakeys c = []
       \<and> norm_factor c = None \<and> meg c = Map.empty \<and> covariates c = Map.empty"
proof -
  have "2 \<le> fl"
  proof (rule ccontr)
    assume "\<not> 2 \<le> fl"
    then obtain e where "gaussian_basis fl (linspace 5 1000 fl) = Inl e"
      using gaussian_basis_fails [of fl] by auto
    then show False using assms by (simp add: REG_Data_init_def)
  qed
  then obtain b where b: "gaussian_basis fl (linspace 5 1000 fl) = Inr b" "nrows b = fl"
    using gaussian_basis_ok [of fl "linspace 5 1000 fl"] by auto
  then show ?thesis using assms \<open>2 \<le> fl\<close> by (auto simp: REG_Data_init_def)
qed

lemma REG_Data_init_ok:
  "2 \<le> fl \<Longrightarrow> \<exists>c :: 'k REG_Data. REG_Data_init fl = Inr c"
  using gaussian_basis_ok [of fl "linspace 5 1000 fl"]
  by (auto simp: REG_Data_init_def)

text \<open>The full index range selects everything.\<close>

lemma py_indices_upt:
  "n \<le> T \<Longrightarrow> py_indices T (map int [m..<n]) = Inr [m..<n]"
proof (induction "n - m" arbitrary: m)
  case 0
  then show ?case by simp
next
  case (Suc d)
  then have "m < n" by simp
  then have u: "[m..<n] = m # [Suc m..<n]" by (simp add: upt_conv_Cons)
  have "py_indices T (map int [Suc m..<n]) = Inr [Suc m..<n]"
    using Suc by simp
  then show ?case using u \<open>m < n\<close> \<open>n \<le> T\<close> by (simp add: py_index_def)
qed

lemma take_rows_full: "take_rows A (map int [0..<length A]) = Inr A"
  by (simp add: take_rows_def nrows_def py_indices_upt map_nth)

lemma take_cols_full:
  assumes "A \<noteq> []" "list_all (\<lambda>r. length r = T) A"
  shows "take_cols A (map int [0..<T]) = Inr A"
proof -
  have "ncols A = T" using assms by (cases A) (auto simp: ncols_def)
  moreover have "map (\<lambda>r. map (\<lambda>j. r ! j) [0..<T]) A = A"
    using assms(2) by (auto simp: list_all_iff map_nth intro!: map_idI)
  ultimately show ?thesis by (simp add: take_cols_def py_indices_upt)
qed

lemma rescale_same:
  assumes "s = 0 \<longrightarrow> concat A = []"
  shows "rescale A (Some s) s = Inr A"
proof (cases "s = 0")
  case True
  then have "concat A = []" using assms by simp
  then have "\<forall>r\<in>set A. r = []" by auto
  then have "map (map (\<lambda>a. a / s)) (map (map (\<lambda>a. s * a)) A) = A"
    by (auto intro!: map_idI)
  moreover have "concat (scale s A) = []" using \<open>\<forall>r\<in>set A. r = []\<close> by (auto simp: scale_def)
  ultimately show ?thesis by (simp add: rescale_def np_div_scalar_def div_by_def scale_def)
next
  case False
  then have "map (map (\<lambda>a. a / s)) (map (map (\<lambda>a. s * a)) A) = A"
    by (auto intro!: map_idI)
  then show ?thesis using False by (simp add: rescale_def np_div_scalar_def div_by_def scale_def)
qed



text \<open>What the loop of \<open>timeslice\<close> leaves in the new container.\<close>

lemma timeslice_loop_fields:
  "timeslice_loop self idx nf ks r = Inr r1 \<Longrightarrow>
     datakeys r1 = datakeys r \<and> norm_factor r1 = norm_factor r
     \<and> filter_length r1 = filter_length r \<and> basis r1 = basis r"
  by (induction ks arbitrary: r) (auto simp: bind_err_eq_Inr)

lemma timeslice_loop_other:
  "timeslice_loop self idx nf ks r = Inr r1 \<Longrightarrow> k \<notin> set ks \<Longrightarrow>
     meg r1 k = meg r k \<and> covariates r1 k = covariates r k"
  by (induction ks arbitrary: r) (auto simp: bind_err_eq_Inr)

lemma timeslice_loop_key:
  "timeslice_loop self idx nf ks r = Inr r1 \<Longrightarrow> k \<in> set ks \<Longrightarrow>
     \<exists>m m1 m2 c c1 c2. meg self k = Some m \<and> take_cols m idx = Inr m1
       \<and> rescale m1 (norm_factor self) nf = Inr m2 \<and> meg r1 k = Some m2
       \<and> covariates self k = Some c \<and> take_rows c idx = Inr c1
       \<and> rescale c1 (norm_factor self) nf = Inr c2 \<and> covariates r1 k = Some c2"
proof (induction ks arbitrary: r)
  case Nil
  then show ?case by simp
next
  case (Cons a ks)
  from Cons.prems(1) obtain m m1 m2 c c1 c2 where
    st: "lookup (meg self) a = Inr m" "take_cols m idx = Inr m1"
      "rescale m1 (norm_factor self) nf = Inr m2"
      "lookup (covariates self) a = Inr c" "take_rows c idx = Inr c1"
      "rescale c1 (norm_factor self) nf = Inr c2"
    and rest: "timeslice_loop self idx nf ks
        (r \<lparr> meg := (meg r)(a \<mapsto> m2), covariates := (covariates r)(a \<mapsto> c2) \<rparr>) = Inr r1"
    by (auto simp: bind_err_eq_Inr)
  show ?case
  proof (cases "k \<in> set ks")
    case True
    then show ?thesis using Cons.IH [OF rest] by simp
  next
    case False
    then have "k = a" using Cons.prems(2) by simp
    moreover have "meg r1 a = Some m2 \<and> covariates r1 a = Some c2"
      using timeslice_loop_other [OF rest, of a] False \<open>k = a\<close> by simp
    moreover have "meg self a = Some m" "covariates self a = Some c"
      using st(1,4) by (auto simp: lookup_def split: option.splits)
    ultimately show ?thesis using st by simp
  qed
qed

lemma timeslice_loop_full:
  assumes "\<forall>k\<in>set ks. \<exists>y E. meg self k = Some y \<and> covariates self k = Some E
            \<and> y \<noteq> [] \<and> list_all (\<lambda>r. length r = T) y \<and> length E = T"
    and "ks \<noteq> [] \<longrightarrow> norm_factor self = Some (sqrt (real T))"
  shows "\<exists>r1. timeslice_loop self (map int [0..<T]) (sqrt (real T)) ks r = Inr r1"
  using assms
proof (induction ks arbitrary: r)
  case Nil
  then show ?case by simp
next
  case (Cons a ks)
  then obtain y E where a: "meg self a = Some y" "covariates self a = Some E"
     "y \<noteq> []" "list_all (\<lambda>r. length r = T) y" "length E = T"
    by auto
  have nf: "norm_factor self = Some (sqrt (real T))" using Cons.prems(2) by simp
  have y0: "sqrt (real T) = 0 \<longrightarrow> concat y = []"
    using a(4) by (auto simp: list_all_iff)
  have E0: "sqrt (real T) = 0 \<longrightarrow> concat E = []"
    using a(5) by auto
  have "\<exists>r1. timeslice_loop self (map int [0..<T]) (sqrt (real T)) ks
          (r \<lparr> meg := (meg r)(a \<mapsto> y), covariates := (covariates r)(a \<mapsto> E) \<rparr>) = Inr r1"
    using Cons.prems nf by (intro Cons.IH) auto
  then show ?case
    using a take_cols_full [OF a(3,4)] take_rows_full [of E] nf
      rescale_same [OF y0] rescale_same [OF E0]
    by (simp add: lookup_def)
qed


lemma length_py_indices: "py_indices n idx = Inr js \<Longrightarrow> length js = length idx"
  by (induction idx arbitrary: js) (auto simp: bind_err_eq_Inr)


lemma load_Inr:
  assumes "load c key m stim nz = Inr c1"
  shows "\<exists>y0 E. datakeys c1 = datakeys c @ [key] \<and> filter_length c1 = filter_length c
     \<and> basis c1 = basis c
     \<and> meg c1 = (meg c)(key \<mapsto> div_by y0 (sqrt (real (ncols y0))))
     \<and> covariates c1 = (covariates c)(key \<mapsto> E)
     \<and> norm_factor c1 = (if norm_factor c = None then Some (sqrt (real (ncols y0)))
                          else norm_factor c)"
proof -
  let ?y0 = "slice_from (nd_data m) (nrows (basis c))"
  from assms obtain C1 where
    "c1 = c \<lparr> datakeys := datakeys c @ [key],
              tstep := (if tstep c = None then Some (nd_tstep m) else tstep c),
              meg := (meg c)(key \<mapsto> div_by ?y0 (sqrt (real (ncols ?y0)))),
              norm_factor := (if norm_factor c = None then Some (sqrt (real (ncols ?y0)))
                              else norm_factor c),
              n_predictor_variables := length C1,
              covariates := (covariates c)(key \<mapsto> side_by_side C1) \<rparr>"
    unfolding load_def Let_def by (auto simp: bind_err_eq_Inr)
  then show ?thesis by (intro exI [of _ ?y0] exI [of _ "side_by_side C1"]) simp
qed

lemma ncols_div_by [simp]: "ncols (div_by A c) = ncols A"
  by (cases A) (simp_all add: ncols_def div_by_def)

lemma ncols_uniform: "A \<noteq> [] \<Longrightarrow> list_all (\<lambda>r. length r = T) A \<Longrightarrow> ncols A = T"
  by (cases A) (simp_all add: ncols_def)

lemma uniform_samples_inv:
  "uniform_samples T c \<Longrightarrow>
     2 \<le> filter_length c
     \<and> (\<forall>k\<in>set (datakeys c). \<exists>y E. meg c k = Some y \<and> covariates c k = Some E
            \<and> y \<noteq> [] \<and> list_all (\<lambda>r. length r = T) y \<and> length E = T)
     \<and> (norm_factor c = None \<and> datakeys c = [] \<or> norm_factor c = Some (sqrt (real T)))"
proof (induction rule: uniform_samples.induct)
  case (fresh fl c T)
  then show ?case using REG_Data_init_Inr [OF fresh] by simp
next
  case (loaded T c key m stim nz c1 y E)
  from load_Inr [OF loaded.hyps(2)] obtain y0 E0 where
    l: "datakeys c1 = datakeys c @ [key]" "filter_length c1 = filter_length c"
       "meg c1 = (meg c)(key \<mapsto> div_by y0 (sqrt (real (ncols y0))))"
       "covariates c1 = (covariates c)(key \<mapsto> E0)"
       "norm_factor c1 = (if norm_factor c = None then Some (sqrt (real (ncols y0)))
                          else norm_factor c)"
    by blast
  have "y = div_by y0 (sqrt (real (ncols y0)))" using l(3) loaded.hyps(3) by simp
  then have nc: "ncols y0 = T"
    using ncols_uniform [OF loaded.hyps(5,6)] by simp
  have "\<exists>y E. meg c1 k = Some y \<and> covariates c1 k = Some E
            \<and> y \<noteq> [] \<and> list_all (\<lambda>r. length r = T) y \<and> length E = T"
    if "k \<in> set (datakeys c1)" for k
  proof (cases "k = key")
    case True
    then show ?thesis using loaded.hyps by simp
  next
    case False
    then have "k \<in> set (datakeys c)" using that l(1) by simp
    then show ?thesis using loaded.IH False l(3,4) by simp
  qed
  moreover have "norm_factor c1 = Some (sqrt (real T))"
    using loaded.IH l(5) nc by auto
  ultimately show ?case using loaded.IH l(2) by simp
next
  case (sliced T0 c idx c1 T)
  from sliced.hyps(2) obtain r0 :: "'a REG_Data" where
    r0: "REG_Data_init (filter_length c) = Inr r0"
    and lp: "timeslice_loop c idx (sqrt (real (length idx))) (datakeys c)
         (r0 \<lparr> datakeys := datakeys c,
               n_predictor_variables := n_predictor_variables c,
               tstep := tstep c,
               norm_factor := Some (sqrt (real (length idx))) \<rparr>) = Inr c1"
    by (auto simp: timeslice_def bind_err_eq_Inr)
  have f: "datakeys c1 = datakeys c" "norm_factor c1 = Some (sqrt (real T))"
     "filter_length c1 = filter_length c"
    using timeslice_loop_fields [OF lp] REG_Data_init_Inr [OF r0] sliced.hyps(3) by simp_all
  have "\<exists>y E. meg c1 k = Some y \<and> covariates c1 k = Some E
            \<and> y \<noteq> [] \<and> list_all (\<lambda>r. length r = T) y \<and> length E = T"
    if k: "k \<in> set (datakeys c1)" for k
  proof -
    have kc: "k \<in> set (datakeys c)" using k f(1) by simp
    from timeslice_loop_key [OF lp kc] obtain m m1 m2 e e1 e2 where
      t: "meg c k = Some m" "take_cols m idx = Inr m1"
         "rescale m1 (norm_factor c) (sqrt (real (length idx))) = Inr m2" "meg c1 k = Some m2"
         "covariates c k = Some e" "take_rows e idx = Inr e1"
         "rescale e1 (norm_factor c) (sqrt (real (length idx))) = Inr e2" "covariates c1 k = Some e2"
      by blast
    have "m \<noteq> []" using sliced.IH kc t(1) by auto
    then have "m1 \<noteq> [] \<and> list_all (\<lambda>r. length r = T) m1"
      using t(2) sliced.hyps(3) length_py_indices
      by (auto simp: take_cols_def bind_err_eq_Inr list_all_iff)
    then have "m2 \<noteq> [] \<and> list_all (\<lambda>r. length r = T) m2"
      using t(3) by (auto simp: rescale_def np_div_scalar_def div_by_def scale_def list_all_iff
          split: option.splits if_splits)
    moreover have "length e1 = T"
      using t(6) sliced.hyps(3) length_py_indices by (auto simp: take_rows_def bind_err_eq_Inr)
    then have "length e2 = T"
      using t(7) by (auto simp: rescale_def np_div_scalar_def div_by_def scale_def
          split: option.splits if_splits)
    ultimately show ?thesis using t(4,8) by simp
  qed
  then show ?case using f sliced.IH by simp
qed



lemma nrows_dot [simp]: "nrows (dot A B) = nrows A"
  by (simp add: dot_def)

lemma nrows_windows [simp]: "nrows (windows M w) = length w + 1 - M"
  by (simp add: nrows_def windows_def)

lemma load_ok_fields:
  fixes c :: "'k REG_Data"
  assumes b: "nrows (basis c) = filter_length c" "0 < filter_length c"
    and m: "is_mat K T (nd_data m)" "0 < K" "filter_length c \<le> T"
    and s: "stim_array stim \<noteq> []" "\<forall>w\<in>set (stim_array stim). filter_length c \<le> length w"
  shows "\<exists>c1 E. load c key m stim False = Inr c1
     \<and> datakeys c1 = datakeys c @ [key]
     \<and> filter_length c1 = filter_length c \<and> basis c1 = basis c
     \<and> meg c1 key = Some (div_by (map (drop (filter_length c - 1)) (nd_data m))
                             (sqrt (real (T + 1 - filter_length c))))
     \<and> covariates c1 key = Some E
     \<and> length E = length (hd (stim_array stim)) + 1 - filter_length c
     \<and> norm_factor c1 = (if norm_factor c = None then Some (sqrt (real (T + 1 - filter_length c)))
                          else norm_factor c)
     \<and> (\<forall>k. k \<noteq> key \<longrightarrow> meg c1 k = meg c k \<and> covariates c1 k = covariates c k)"
proof -
  let ?s = "sqrt (real (T + 1 - filter_length c))"
  let ?C = "map (\<lambda>w. div_by (dot (windows (filter_length c) w) (basis c)) ?s) (stim_array stim)"
  have "hd ?C = div_by (dot (windows (filter_length c) (hd (stim_array stim))) (basis c)) ?s"
    using s(1) by (simp add: hd_map)
  then have "length (side_by_side ?C) = length (hd (stim_array stim)) + 1 - filter_length c"
    by (simp add: length_side_by_side)
  moreover have "slice_from (nd_data m) (filter_length c) = map (drop (filter_length c - 1)) (nd_data m)"
    using b(2) by (simp add: slice_from_def)
  ultimately show ?thesis
    unfolding load_ok [OF assms] by simp
qed

lemma ex_load_twice:
  fixes c0 :: "string REG_Data"
  assumes "REG_Data_init 2 = Inr c0"
  shows "\<exists>c1 c2 E1 E2.
      load c0 ''a'' \<lparr>nd_data = [[1, 2, 3]], nd_tstep = 1\<rparr> (Stim [1, 2, 3]) False = Inr c1
    \<and> datakeys c1 = [''a''] \<and> meg c1 ''a'' = Some [[2 / sqrt 2, 3 / sqrt 2]]
    \<and> covariates c1 ''a'' = Some E1 \<and> length E1 = 2
    \<and> load c1 ''a'' \<lparr>nd_data = [[4, 5, 6]], nd_tstep = 1\<rparr> (Stim [7, 8, 9]) False = Inr c2
    \<and> datakeys c2 = [''a'', ''a''] \<and> meg c2 ''a'' = Some [[5 / sqrt 2, 6 / sqrt 2]]
    \<and> covariates c2 ''a'' = Some E2 \<and> length E2 = 2"
proof -
  note i = REG_Data_init_Inr [OF assms]
  have b: "nrows (basis c0) = filter_length c0" "0 < filter_length c0" using i by simp_all
  have m1: "is_mat 1 3 (nd_data \<lparr>nd_data = [[1, 2, 3]], nd_tstep = 1\<rparr>)" "(0::nat) < 1"
    by (simp_all add: is_mat_def)
  have s1: "stim_array (Stim [1, 2, 3]) \<noteq> []"
     "\<forall>w\<in>set (stim_array (Stim [1, 2, 3])). filter_length c0 \<le> length w"
    using i by (simp_all add: stim_array_def)
  have fl: "filter_length c0 \<le> 3" using i by simp
  from load_ok_fields [OF b m1 fl s1, of "''a''"] obtain c1 E1 where
    c1: "load c0 ''a'' \<lparr>nd_data = [[1, 2, 3]], nd_tstep = 1\<rparr> (Stim [1, 2, 3]) False = Inr c1"
      "datakeys c1 = datakeys c0 @ [''a'']" "filter_length c1 = filter_length c0"
      "basis c1 = basis c0"
      "meg c1 ''a'' = Some (div_by (map (drop (filter_length c0 - 1))
          (nd_data \<lparr>nd_data = [[1, 2, 3]], nd_tstep = 1\<rparr>)) (sqrt (real (3 + 1 - filter_length c0))))"
      "covariates c1 ''a'' = Some E1"
      "length E1 = length (hd (stim_array (Stim [1, 2, 3]))) + 1 - filter_length c0"
    by blast
  have b2: "nrows (basis c1) = filter_length c1" "0 < filter_length c1"
    using b c1(3,4) by simp_all
  have m2: "is_mat 1 3 (nd_data \<lparr>nd_data = [[4, 5, 6]], nd_tstep = 1\<rparr>)"
    by (simp add: is_mat_def)
  have s2: "stim_array (Stim [7, 8, 9]) \<noteq> []"
     "\<forall>w\<in>set (stim_array (Stim [7, 8, 9])). filter_length c1 \<le> length w"
    using i c1(3) by (simp_all add: stim_array_def)
  have fl2: "filter_length c1 \<le> 3" using i c1(3) by simp
  from load_ok_fields [OF b2 m2 m1(2) fl2 s2, of "''a''"] obtain c2 E2 where
    c2: "load c1 ''a'' \<lparr>nd_data = [[4, 5, 6]], nd_tstep = 1\<rparr> (Stim [7, 8, 9]) False = Inr c2"
      "datakeys c2 = datakeys c1 @ [''a'']"
      "meg c2 ''a'' = Some (div_by (map (drop (filter_length c1 - 1))
          (nd_data \<lparr>nd_data = [[4, 5, 6]], nd_tstep = 1\<rparr>)) (sqrt (real (3 + 1 - filter_length c1))))"
      "covariates c2 ''a'' = Some E2"
      "length E2 = length (hd (stim_array (Stim [7, 8, 9]))) + 1 - filter_length c1"
    by blast
  have "datakeys c1 = [''a'']" "meg c1 ''a'' = Some [[2 / sqrt 2, 3 / sqrt 2]]" "length E1 = 2"
    using c1 i by (simp_all add: div_by_def stim_array_def)
  moreover have "datakeys c2 = [''a'', ''a'']" "meg c2 ''a'' = Some [[5 / sqrt 2, 6 / sqrt 2]]"
    "length E2 = 2"
    using c2 c1(2,3) i by (simp_all add: div_by_def stim_array_def)
  ultimately show ?thesis using c1(1,6) c2(1,4) by blast
qed


section \<open>Lemmas on the relative change\<close>


lemma py_sqrt_np_div_zero:
  "0 \<le> a \<Longrightarrow> py_sqrt (np_div a 0) = Inr (if a = 0 then NaN else PInf)"
  by (simp add: np_div_def)

lemma msum_square_nonneg: "0 \<le> msum (square A)"
  unfolding msum_def square_def
  by (auto intro!: sum_list_nonneg)

lemma msum_square_zeros: "msum (square (zeros r c)) = 0"
  by (simp add: msum_def square_def zeros_def sum_list_replicate)

lemma is_mat_zeros [simp]: "is_mat r c (zeros r c)"
  by (simp add: is_mat_def zeros_def list_all_iff)

lemma nth_zeros [simp]: "i < r \<Longrightarrow> j < c \<Longrightarrow> zeros r c ! i ! j = 0"
  by (simp add: zeros_def)

lemma sum_list_squares_eq_0: "sum_list (map (\<lambda>a. a * a) (xs::real list)) = 0 \<longleftrightarrow> (\<forall>a\<in>set xs. a = 0)"
proof -
  have "\<And>x. x \<in> set (map (\<lambda>a. a * a) xs) \<Longrightarrow> 0 \<le> x" by auto
  then have "sum_list (map (\<lambda>a. a * a) xs) = 0 \<longleftrightarrow> (\<forall>x\<in>set (map (\<lambda>a. a * a) xs). x = 0)"
    by (rule sum_list_nonneg_eq_0_iff)
  then show ?thesis by simp
qed

lemma msum_square_eq_0_iff:
  "msum (square A) = 0 \<longleftrightarrow> (\<forall>row\<in>set A. \<forall>a\<in>set row. a = 0)"
proof -
  have nn: "\<And>x. x \<in> set (map sum_list (square A)) \<Longrightarrow> 0 \<le> x"
    by (auto simp: square_def intro!: sum_list_nonneg)
  have "msum (square A) = 0 \<longleftrightarrow> (\<forall>x\<in>set (map sum_list (square A)). x = 0)"
    unfolding msum_def using nn by (rule sum_list_nonneg_eq_0_iff)
  also have "\<dots> \<longleftrightarrow> (\<forall>row\<in>set A. sum_list (map (\<lambda>a. a * a) row) = 0)"
    by (simp add: square_def)
  finally show ?thesis by (simp add: sum_list_squares_eq_0)
qed

lemma all_zero_is_zeros:
  assumes "is_mat r c A"
  shows "(\<forall>row\<in>set A. \<forall>a\<in>set row. a = 0) \<longleftrightarrow> A = zeros r c"
proof
  assume z: "\<forall>row\<in>set A. \<forall>a\<in>set row. a = 0"
  show "A = zeros r c"
  proof (rule mat_eqI [of r c])
    fix i j assume "i < r" "j < c"
    then have "A ! i \<in> set A" "A ! i ! j \<in> set (A ! i)"
      using assms by (simp_all add: is_mat_length is_mat_row)
    then show "A ! i ! j = zeros r c ! i ! j" using z \<open>i < r\<close> \<open>j < c\<close> by simp
  qed (simp_all add: assms)
next
  assume "A = zeros r c"
  then show "\<forall>row\<in>set A. \<forall>a\<in>set row. a = 0" by (auto simp: zeros_def)
qed

lemma np_sub_zeros: "is_mat r c A \<Longrightarrow> np_sub A (zeros r c) = Inr A"
  by (simp add: np_sub_def np_binop_mk [of r c] mk_mat_eq cong: mk_mat_cong)

lemma residual_zero_start:
  assumes "is_mat r c th1"
  shows "residual (zeros r c) th1 = Inr (if th1 = zeros r c then NaN else PInf)"
  using assms py_sqrt_np_div_zero [OF msum_square_nonneg, of th1]
  by (simp add: residual_def np_sub_zeros msum_square_zeros msum_square_eq_0_iff all_zero_is_zeros)


lemma residual_from_zero:
  assumes "residual (zeros r c) th1 = Inr v"
  shows "v = PInf \<or> v = NaN"
proof -
  from assms obtain d where "np_sub th1 (zeros r c) = Inr d"
    and "py_sqrt (np_div (msum (square d)) (msum (square (zeros r c)))) = Inr v"
    by (auto simp: residual_def bind_err_eq_Inr)
  then show ?thesis
    using py_sqrt_np_div_zero [OF msum_square_nonneg, of d]
    by (auto simp: msum_square_zeros split: if_splits)
qed

section \<open>Lemmas on the estimation-stability metric\<close>


lemma length_signals: "signals ms data = Inr Y \<Longrightarrow> length Y = length ms"
  by (induction ms arbitrary: Y) (auto simp: bind_err_eq_Inr)

lemma mean_const: "xs \<noteq> [] \<Longrightarrow> \<forall>x\<in>set xs. x = a \<Longrightarrow> mean xs = a"
proof -
  assume ne: "xs \<noteq> []" and c: "\<forall>x\<in>set xs. x = a"
  have "sum_list xs = real (length xs) * a" using c
    by (induction xs) (auto simp: algebra_simps)
  then show ?thesis using ne by (simp add: mean_def)
qed

lemma ncols_hd: "Y \<noteq> [] \<Longrightarrow> ncols Y = length (hd Y)"
  by (cases Y) (simp_all add: ncols_def)

lemma mean_axis0_const:
  assumes "Y \<noteq> []" "\<forall>y\<in>set Y. y = hd Y"
  shows "mean_axis0 Y = hd Y"
proof -
  have "mean (map (\<lambda>y. y ! p) Y) = hd Y ! p" for p
    using assms by (intro mean_const) auto
  then have "mean_axis0 Y = map (\<lambda>p. hd Y ! p) [0..<length (hd Y)]"
    using assms(1) by (simp add: mean_axis0_def ncols_hd)
  then show ?thesis by (simp add: map_nth)
qed


lemma sq_dist_nonneg: "0 \<le> sq_dist y r"
  unfolding sq_dist_def by (auto intro!: sum_list_nonneg)

lemma sq_dist_self: "sq_dist y y = 0"
proof -
  have "\<forall>a\<in>set (map2 (\<lambda>a b. a - b) y y). a = 0"
    by (auto simp: set_zip)
  then show ?thesis unfolding sq_dist_def
    using sum_list_squares_eq_0 by blast
qed

lemma sq_dist_eq_0:
  assumes "length y = length r" "sq_dist y r = 0"
  shows "y = r"
proof (rule nth_equalityI)
  show "length y = length r" by fact
next
  fix i assume i: "i < length y"
  have "\<forall>a\<in>set (map2 (\<lambda>a b. a - b) y r). a = 0"
    using assms(2) unfolding sq_dist_def by (simp only: sum_list_squares_eq_0)
  moreover have "map2 (\<lambda>a b. a - b) y r ! i \<in> set (map2 (\<lambda>a b. a - b) y r)"
    using i assms(1) by (intro nth_mem) simp
  ultimately have "map2 (\<lambda>a b. a - b) y r ! i = 0" by blast
  then show "y ! i = r ! i" using i assms(1) by simp
qed

lemma VarY_eq:
  "mean (map sum_list (square (sub_row Y r))) = sum_list (map (\<lambda>y. sq_dist y r) Y) / real (length Y)"
  by (simp add: mean_def square_def sub_row_def sq_dist_def comp_def)

lemma length_mean_axis0: "length (mean_axis0 Y) = ncols Y"
  by (simp add: mean_axis0_def)

lemma VarY_pos:
  assumes "Y \<noteq> []" "\<forall>y\<in>set Y. length y = ncols Y" "\<not> (\<forall>y\<in>set Y. y = hd Y)"
  shows "0 < mean (map sum_list (square (sub_row Y (mean_axis0 Y))))"
proof -
  let ?r = "mean_axis0 Y"
  have nn: "\<And>x. x \<in> set (map (\<lambda>y. sq_dist y ?r) Y) \<Longrightarrow> 0 \<le> x"
    by (auto simp: sq_dist_nonneg)
  have "sum_list (map (\<lambda>y. sq_dist y ?r) Y) \<noteq> 0"
  proof
    assume "sum_list (map (\<lambda>y. sq_dist y ?r) Y) = 0"
    then have "\<forall>x\<in>set (map (\<lambda>y. sq_dist y ?r) Y). x = 0"
      using sum_list_nonneg_eq_0_iff [OF nn] by blast
    then have "\<forall>y\<in>set Y. y = ?r"
      using assms(2) by (auto intro!: sq_dist_eq_0 simp: length_mean_axis0)
    moreover have "hd Y \<in> set Y" using assms(1) by simp
    ultimately have "\<forall>y\<in>set Y. y = hd Y" by metis
    then show False using assms(3) by blast
  qed
  moreover have "0 \<le> sum_list (map (\<lambda>y. sq_dist y ?r) Y)"
    using nn by (rule sum_list_nonneg)
  ultimately have "0 < sum_list (map (\<lambda>y. sq_dist y ?r) Y)" by simp
  then show ?thesis using assms(1) by (simp add: VarY_eq)
qed

lemma VarY_zero:
  assumes "Y \<noteq> []" "\<forall>y\<in>set Y. y = hd Y"
  shows "mean (map sum_list (square (sub_row Y (mean_axis0 Y)))) = 0"
proof -
  have "\<And>x. x \<in> set (map (\<lambda>y. sq_dist y (hd Y)) Y) \<Longrightarrow> 0 \<le> x"
    by (auto simp: sq_dist_nonneg)
  then have "sum_list (map (\<lambda>y. sq_dist y (hd Y)) Y) = 0
      \<longleftrightarrow> (\<forall>x\<in>set (map (\<lambda>y. sq_dist y (hd Y)) Y). x = 0)"
    by (rule sum_list_nonneg_eq_0_iff)
  moreover have "\<forall>x\<in>set (map (\<lambda>y. sq_dist y (hd Y)) Y). x = 0"
    using assms(2) by (auto simp: sq_dist_self)
  ultimately have "sum_list (map (\<lambda>y. sq_dist y (hd Y)) Y) = 0"
    by blast
  then show ?thesis
    using assms by (simp add: VarY_eq mean_axis0_const)
qed

lemma msum_square_row: "msum (square [r]) = 0 \<longleftrightarrow> (\<forall>a\<in>set r. a = 0)"
  by (simp add: msum_square_eq_0_iff)

lemma compute_ES_metric_eq:
  assumes "signals models data = Inr Y" "models \<noteq> []" "\<forall>y\<in>set Y. length y = ncols Y"
  shows "compute_ES_metric models data =
     Inr (np_div (mean (map sum_list (square (sub_row Y (mean_axis0 Y)))))
                 (msum (square [mean_axis0 Y])))"
proof -
  have "Y \<noteq> []" using length_signals [OF assms(1)] assms(2) by auto
  moreover have "\<not> list_ex (\<lambda>y. length y \<noteq> ncols Y) Y"
    using assms(3) by (simp add: list_ex_iff)
  ultimately show ?thesis
    using assms(1) by (simp add: compute_ES_metric_def Let_def)
qed


section \<open>Lemmas on the forward model\<close>

lemma init_vars_Inr:
  assumes ok: "init_vars noise (Inr lf) = Inr (lf1, eta1, sigma_b)"
    and sym: "symmetric noise" and K: "nrows noise = K" "0 < K"
    and lf: "is_mat K N lf" "0 < N"
  shows "lf1 = lf"
    and "\<exists>wf G. cholesky noise = Inr wf \<and> lower_triangular wf
           \<and> dot wf (transpose_m wf) = noise
           \<and> solve wf lf = Inr G \<and> is_mat K N G \<and> dot wf G = lf
           \<and> trace (dot G (transpose_m G)) \<noteq> 0
           \<and> eta1 = real K / trace (dot G (transpose_m G))"
    and "sigma_b = mk_mat K K (\<lambda>i j. noise ! i ! j + eta1 * (\<Sum>k<N. lf ! i ! k * lf ! j ! k))"
proof -
  from ok obtain wf G GG LL where
    c: "cholesky noise = Inr wf" and s: "solve wf lf = Inr G"
    and gg: "np_dot G (transpose_m G) = Inr GG" and tr: "trace GG \<noteq> 0"
    and ll: "np_dot lf (transpose_m lf) = Inr LL"
    and sg: "np_add noise (scale (real (nrows lf) / trace GG) LL) = Inr sigma_b"
    and e: "eta1 = real (nrows lf) / trace GG" and l1: "lf1 = lf"
    by (auto simp: init_vars_def bind_err_eq_Inr Let_def split: if_splits)
  show "lf1 = lf" by fact
  note p = cholesky_props [OF c K(1)]
  have d: "\<And>i. i < K \<Longrightarrow> wf ! i ! i \<noteq> 0" using p(4) by force
  from solve_correct [OF p(2,3) d lf(1) K(2)] s
  have G: "is_mat K N G" "dot wf G = lf" by auto
  have ggd: "GG = dot G (transpose_m G)"
    using gg by (auto simp: np_dot_def split: if_splits)
  have Kl: "nrows lf = K" using lf(1) by (rule is_mat_nrows)
  show "\<exists>wf G. cholesky noise = Inr wf \<and> lower_triangular wf
           \<and> dot wf (transpose_m wf) = noise
           \<and> solve wf lf = Inr G \<and> is_mat K N G \<and> dot wf G = lf
           \<and> trace (dot G (transpose_m G)) \<noteq> 0
           \<and> eta1 = real K / trace (dot G (transpose_m G))"
    using c p(2) cholesky_dot_transpose [OF c K(1) sym K(2)] s G tr e ggd Kl by auto
  have LL: "LL = mk_mat K K (\<lambda>i j. \<Sum>k<N. lf ! i ! k * lf ! j ! k)"
    using ll gram_mk [OF lf(1) K(2) lf(2)] by simp
  have "scale eta1 LL = mk_mat K K (\<lambda>i j. eta1 * LL ! i ! j)"
    by (rule scale_mk) (simp add: LL)
  then have "np_add noise (scale eta1 LL) = Inr (mk_mat K K (\<lambda>i j. noise ! i ! j + scale eta1 LL ! i ! j))"
    using p(1) by (intro np_add_mk) simp_all
  also have "mk_mat K K (\<lambda>i j. noise ! i ! j + scale eta1 LL ! i ! j)
     = mk_mat K K (\<lambda>i j. noise ! i ! j + eta1 * (\<Sum>k<N. lf ! i ! k * lf ! j ! k))"
    by (rule mk_mat_cong) (simp add: scale_mk [of K K] LL)
  finally show "sigma_b = mk_mat K K (\<lambda>i j. noise ! i ! j + eta1 * (\<Sum>k<N. lf ! i ! k * lf ! j ! k))"
    using sg e by simp
qed



lemma chol_rows_error: "chol_rows A n = Inl e \<Longrightarrow> e = LinAlgError"
proof (induction n)
  case 0
  then show ?case by simp
next
  case (Suc n)
  then show ?case
    by (cases "chol_rows A n") (auto simp: Let_def split: if_splits)
qed

lemma cholesky_square_error:
  assumes "cholesky A = Inl e" "is_mat n n A"
  shows "e = LinAlgError"
proof -
  have "\<not> list_ex (\<lambda>r. length r \<noteq> nrows A) A"
    using assms(2) by (auto simp: list_ex_iff is_mat_def nrows_def list_all_iff)
  then show ?thesis using assms(1) chol_rows_error by (simp add: cholesky_def)
qed

lemma cholesky_not_pd:
  assumes "symmetric A" "nrows A = n" "length x = n" "i < n" "x ! i \<noteq> 0" "quad_form A x \<le> 0"
  shows "cholesky A = Inl LinAlgError"
proof (cases "cholesky A")
  case (Inl e)
  then show ?thesis using cholesky_square_error [OF Inl symmetricD(1) [OF assms(1,2)]] by simp
next
  case (Inr L)
  then show ?thesis using cholesky_positive_definite [OF Inr assms(2,1,3,4,5)] assms(6) by simp
qed

lemma concat_nonempty: "is_mat K N A \<Longrightarrow> 0 < K \<Longrightarrow> 0 < N \<Longrightarrow> concat A \<noteq> []"
  by (cases A) (auto simp: is_mat_def)


section \<open>Lemmas on the Champagne inner solver\<close>


lemma nth_err_Inr: "nth_err xs i = Inr x \<longleftrightarrow> i < length xs \<and> x = xs ! i"
  by (auto simp: nth_err_def)

lemma np_dot_Inr: "np_dot A B = Inr C \<longleftrightarrow> ncols A = nrows B \<and> C = dot A B"
  by (auto simp: np_dot_def)

lemma nrows_block [simp]: "nrows (block A i dc) = nrows A"
  by (simp add: block_def nrows_def)

lemma ncols_dot: "0 < nrows A \<Longrightarrow> ncols (dot A B) = ncols B"
  by (simp add: dot_def)

lemma nrows_transpose [simp]: "nrows (transpose_m A) = ncols A"
  by (simp add: transpose_m_def)

lemma ncols_transpose: "0 < ncols A \<Longrightarrow> ncols (transpose_m A) = nrows A"
  by (simp add: transpose_m_def)

lemma ncols_nil [simp]: "ncols [] = 0"
  by (simp add: ncols_def)

lemma ncols_transpose0: "ncols A = 0 \<Longrightarrow> ncols (transpose_m A) = 0"
  by (simp add: transpose_m_def)

lemma is_mat_dot_any: "is_mat (nrows A) (ncols B) (dot A B)"
  by (simp add: dot_def)

text \<open>An in-place addition that succeeds adds entry by entry, when the summand has the
  shape of the accumulator.\<close>

lemma np_iadd_same:
  assumes "is_mat K K S" "is_mat K K D"
  shows "np_iadd S D = Inr (mk_mat K K (\<lambda>p q. S ! p ! q + D ! p ! q))"
proof -
  have a: "np_add S D = Inr (mk_mat K K (\<lambda>p q. S ! p ! q + D ! p ! q))"
    using assms by (rule np_add_mk)
  show ?thesis
  proof (cases "K = 0")
    case True
    then have "S = []" using assms by (simp add: is_mat_def)
    then show ?thesis using a True by (simp add: np_iadd_def nrows_def)
  next
    case False
    then show ?thesis using a assms by (simp add: np_iadd_def is_mat_nrows is_mat_ncols)
  qed
qed

lemma increment_shape:
  assumes lf: "is_mat K M lf" "0 < K"
    and t2: "np_dot g1 (transpose_m (block lf i dc)) = Inr t2"
    and inc: "np_dot (block lf i dc) t2 = Inr inc"
    and add: "np_iadd S inc = Inr S1" and S: "is_mat K K S"
  shows "is_mat K K inc"
proof -
  let ?b = "block lf i dc"
  have nb: "nrows ?b = K" using lf(1) by (simp add: is_mat_nrows)
  have incd: "inc = dot ?b t2" and t2d: "t2 = dot g1 (transpose_m ?b)"
    and c1: "ncols ?b = nrows t2" and c2: "ncols g1 = nrows (transpose_m ?b)"
    using t2 inc by (simp_all add: np_dot_Inr)
  have m: "is_mat K (ncols t2) inc" unfolding incd using is_mat_dot_any [of ?b t2] nb by simp
  obtain C where C: "np_add S inc = Inr C" "nrows C = nrows S" "ncols C = ncols S"
    using add by (auto simp: np_iadd_def bind_err_eq_Inr split: if_splits)
  have SK: "nrows S = K" "ncols S = K" using S lf(2) by (simp_all add: is_mat_nrows is_mat_ncols)
  have incK: "nrows inc = K" "ncols inc = ncols t2"
    using m lf(2) by (simp_all add: is_mat_nrows is_mat_ncols)
  have "ncols t2 = K"
  proof (cases "ncols ?b = 0")
    case True
    then have "t2 = []" using c1 by (simp add: nrows_def)
    then have "ncols inc = 0" using incK by simp
    then have "bc_dim K 0 \<noteq> None \<and> ncols C = (if K = 1 then 0 else K)"
      using C(1) SK incK
      by (auto simp: np_add_def np_binop_def bc_dim_def split: option.splits if_splits)
    then have False using C(3) SK lf(2) by (auto simp: bc_dim_def split: if_splits)
    then show ?thesis ..
  next
    case False
    then have bpos: "0 < ncols ?b" by simp
    then have "0 < ncols g1" using c2 by simp
    then have "0 < nrows g1" by (cases g1) (auto simp: ncols_def nrows_def)
    then have "ncols t2 = ncols (transpose_m ?b)" unfolding t2d by (rule ncols_dot)
    then show ?thesis using ncols_transpose [OF bpos] nb by simp
  qed
  then show ?thesis using m by simp
qed



lemma source_loop_sum:
  assumes "source_loop ext dc uo lf lhat yt js (gamma, S) = Inr (gamma1, S1)"
    and "is_mat K M lf" "0 < K" "is_mat K K S" "distinct js"
  shows "length gamma1 = length gamma
     \<and> (\<forall>i. i \<notin> set js \<longrightarrow> gamma1 ! i = gamma ! i)
     \<and> is_mat K K S1
     \<and> (\<forall>p<K. \<forall>q<K. S1 ! p ! q = S ! p ! q
           + sum_list (map (\<lambda>i. dot (block lf i dc)
                 (dot (gamma1 ! i) (transpose_m (block lf i dc))) ! p ! q) js))"
  using assms
proof (induction js arbitrary: gamma S)
  case Nil
  then show ?case by simp
next
  case (Cons i rest)
  from Cons.prems(1) obtain g t x z g1 t2 inc Sa where
    st: "nth_err gamma i = Inr g"
      "np_dot g1 (transpose_m (block lf i dc)) = Inr t2"
      "np_dot (block lf i dc) t2 = Inr inc"
      "np_iadd S inc = Inr Sa"
    and rest: "source_loop ext dc uo lf lhat yt rest (gamma[i := g1], Sa) = Inr (gamma1, S1)"
    by (auto simp: bind_err_eq_Inr)
  have inc: "is_mat K K inc"
    by (rule increment_shape [OF Cons.prems(2,3) st(2,3,4) Cons.prems(4)])
  have Sa: "Sa = mk_mat K K (\<lambda>p q. S ! p ! q + inc ! p ! q)"
    using st(4) np_iadd_same [OF Cons.prems(4) inc] by simp
  then have SaK: "is_mat K K Sa" by simp
  have d: "distinct rest" "i \<notin> set rest" using Cons.prems(5) by simp_all
  note IH = Cons.IH [OF rest Cons.prems(2,3) SaK d(1)]
  have i: "i < length gamma" using st(1) by (simp add: nth_err_Inr)
  have gi: "gamma1 ! i = g1" using IH d(2) i by simp
  have incd: "inc = dot (block lf i dc) (dot (gamma1 ! i) (transpose_m (block lf i dc)))"
    using st(2,3) gi by (simp add: np_dot_Inr)
  have "S1 ! p ! q = S ! p ! q
           + sum_list (map (\<lambda>i. dot (block lf i dc)
                 (dot (gamma1 ! i) (transpose_m (block lf i dc))) ! p ! q) (i # rest))"
    if "p < K" "q < K" for p q
    using IH that by (simp add: Sa incd)
  moreover have "gamma1 ! j = gamma ! j" if "j \<notin> set (i # rest)" for j
    using IH that by simp
  ultimately show ?case using IH by simp
qed

lemma distinct_upt0: "distinct [0..<n]"
  by simp

lemma champagne_iter_invariant:
  assumes it: "champagne_iter ext self dc uo yhat s = Inr (gamma1, S1)"
    and sh: "is_mat K K (noise_covariance self)" "is_mat K M (lead_field self)" "0 < K"
  shows "S1 = sigma_of_gamma self dc gamma1"
proof -
  from it obtain lhat yt where
    sl: "source_loop ext dc uo (lead_field self) lhat yt [0..<sources_n self]
          (fst s, noise_covariance self) = Inr (gamma1, S1)"
    by (auto simp: champagne_iter_def bind_err_eq_Inr)
  note r = source_loop_sum [OF sl sh(2,3,1) distinct_upt0]
  have K: "nrows (noise_covariance self) = K" using sh(1) by (rule is_mat_nrows)
  show ?thesis
    unfolding sigma_of_gamma_def K
    by (rule mat_eqI [of K K]) (use r in \<open>simp_all add: sum_upt\<close>)
qed



lemma champagne_split:
  "champagne ext self dc uo yhat (j + k) s
     = bind_err (champagne ext self dc uo yhat j s) (champagne ext self dc uo yhat k)"
proof (induction j arbitrary: s)
  case 0
  then show ?case by simp
next
  case (Suc j)
  show ?case
    by (cases "champagne_iter ext self dc uo yhat s") (simp_all add: Suc)
qed

lemma champagne_last:
  "champagne ext self dc uo yhat (Suc k) s
     = bind_err (champagne ext self dc uo yhat k s) (champagne_iter ext self dc uo yhat)"
proof -
  have "champagne ext self dc uo yhat (k + 1) s
     = bind_err (champagne ext self dc uo yhat k s) (champagne ext self dc uo yhat 1)"
    by (rule champagne_split)
  moreover have "champagne ext self dc uo yhat 1 = champagne_iter ext self dc uo yhat"
    by (rule ext) (simp add: bind_err_def split: sum.splits)
  ultimately show ?thesis by simp
qed

lemma champagne_prefix:
  assumes run: "champagne ext self dc uo yhat n s = Inr s1"
    and sh: "is_mat K K (noise_covariance self)" "is_mat K M (lead_field self)" "0 < K"
    and k: "0 < k" "k \<le> n"
  shows "\<exists>sk. champagne ext self dc uo yhat k s = Inr sk
            \<and> snd sk = sigma_of_gamma self dc (fst sk)
            \<and> champagne ext self dc uo yhat (n - k) sk = Inr s1"
proof -
  have "champagne ext self dc uo yhat (k + (n - k)) s = Inr s1" using run k by simp
  then obtain sk where sk: "champagne ext self dc uo yhat k s = Inr sk"
    "champagne ext self dc uo yhat (n - k) sk = Inr s1"
    unfolding champagne_split by (auto simp: bind_err_eq_Inr)
  obtain k0 where k0: "k = Suc k0" using k(1) by (cases k) simp_all
  from sk(1) obtain s0 where "champagne_iter ext self dc uo yhat s0 = Inr sk"
    unfolding k0 champagne_last by (auto simp: bind_err_eq_Inr)
  then have "champagne_iter ext self dc uo yhat s0 = Inr (fst sk, snd sk)" by simp
  then have "snd sk = sigma_of_gamma self dc (fst sk)"
    by (rule champagne_iter_invariant [OF _ sh])
  then show ?thesis using sk by blast
qed

text \<open>What \<open>_solve\<close> stores for a trial is the result of the Champagne loop.\<close>

lemma champagne_iter_cong:
  assumes "lead_field a = lead_field b" "noise_covariance a = noise_covariance b"
    "sources_n a = sources_n b"
  shows "champagne_iter ext a dc uo yhat s = champagne_iter ext b dc uo yhat s"
  using assms by (simp add: champagne_iter_def)

lemma champagne_cong:
  assumes "lead_field a = lead_field b" "noise_covariance a = noise_covariance b"
    "sources_n a = sources_n b"
  shows "champagne ext a dc uo yhat n s = champagne ext b dc uo yhat n s"
proof (induction n arbitrary: s)
  case 0
  then show ?case by simp
next
  case (Suc n)
  then have "champagne ext a dc uo yhat n = champagne ext b dc uo yhat n" by (intro ext)
  then show ?case by (simp add: champagne_iter_cong [OF assms])
qed

lemma solve_loop_stores:
  assumes "solve_loop ext data th dc uo idx n ks self = Inr self1"
  shows "lead_field self1 = lead_field self \<and> noise_covariance self1 = noise_covariance self
     \<and> sources_n self1 = sources_n self
     \<and> (\<forall>key\<in>set ks. \<exists>yhat s0 gamma1 sigma1.
           champagne ext self dc uo yhat n s0 = Inr (gamma1, sigma1)
         \<and> Gamma self1 key = Some gamma1 \<and> Sigma_b self1 key = Some sigma1)
     \<and> (\<forall>key. key \<notin> set ks \<longrightarrow> Gamma self1 key = Gamma self key
                                \<and> Sigma_b self1 key = Sigma_b self key)"
  using assms
proof (induction ks arbitrary: self)
  case Nil
  then show ?case by simp
next
  case (Cons a ks)
  from Cons.prems obtain yhat gamma sigma_b gamma1 sigma1 where
    ch: "champagne ext self dc uo yhat n (gamma, sigma_b) = Inr (gamma1, sigma1)"
    and rest: "solve_loop ext data th dc uo idx n ks
       (self \<lparr> Gamma := (Gamma self)(a \<mapsto> gamma1),
               Sigma_b := (Sigma_b self)(a \<mapsto> sigma1) \<rparr>) = Inr self1"
    by (auto simp: bind_err_eq_Inr)
  let ?mid = "self \<lparr> Gamma := (Gamma self)(a \<mapsto> gamma1), Sigma_b := (Sigma_b self)(a \<mapsto> sigma1) \<rparr>"
  note IH = Cons.IH [OF rest]
  have cg: "champagne ext ?mid dc uo y n s = champagne ext self dc uo y n s" for y s
    by (rule champagne_cong) simp_all
  have "\<exists>yhat s0 gamma1 sigma1.
           champagne ext self dc uo yhat n s0 = Inr (gamma1, sigma1)
         \<and> Gamma self1 key = Some gamma1 \<and> Sigma_b self1 key = Some sigma1"
    if "key \<in> set (a # ks)" for key
  proof (cases "key \<in> set ks")
    case True
    then show ?thesis using IH cg by auto
  next
    case False
    then have "key = a" using that by simp
    then have "Gamma self1 key = Some gamma1 \<and> Sigma_b self1 key = Some sigma1"
      using IH False by simp
    then show ?thesis using ch by blast
  qed
  then show ?case using IH by auto
qed



lemma sqrt_sq: "0 \<le> a \<Longrightarrow> sqrt (a * a) = a"
  by simp

lemma ex_sqrts: "sqrt 4 = 2" "sqrt 25 = 5" "sqrt (1 / 4) = 1 / 2" "sqrt (25 / 4) = 5 / 2"
  using sqrt_sq [of 2] sqrt_sq [of 5] sqrt_sq [of "1 / 2"] sqrt_sq [of "5 / 2"] by simp_all

lemmas array_defs = nrows_def ncols_def mk_mat_def dot_def np_dot_def transpose_m_def
  np_binop_def np_add_def np_sub_def np_mul_def np_iadd_def bc_dim_def bc_get_def scale_def
  div_by_def

lemma ex_residual_factor:
  "residual_factor (ex_model [[0]]) [[0]] [[3, 4]] [[1], [2]] = Inr [[5]]"
  by (simp add: residual_factor_def ex_model_def array_defs cholesky_def ex_sqrts)

lemma ex_champagne_iter:
  "champagne_iter ex_ext (ex_model th) (Suc 0) True [[5]] ([[[2]]], [[4]])
     = Inr ([[[5]]], [[7]])"
  by (simp add: champagne_iter_def ex_model_def array_defs cholesky_def solve_def ex_sqrts
      nth_err_def block_def update_gamma_def sqrt_1x1_def)

lemma ex_champagne:
  "champagne ex_ext (ex_model th) (Suc 0) True [[5]] (Suc 0) ([[[2]]], [[4]])
     = Inr ([[[5]]], [[7]])"
  by (simp add: ex_champagne_iter)

lemma ex_solve:
  "DstRF_solve ex_ext (ex_model [[0]]) ex_data [[0]] no_kwargs
     = Inr ((ex_model [[0]]) \<lparr> Gamma := [''a'' \<mapsto> [[[5]]]], Sigma_b := [''a'' \<mapsto> [[7]]] \<rparr>)"
proof -
  have o: "lookup orientation_table (orientation (ex_model [[0]])) = Inr (Suc 0)"
    by (simp add: lookup_def orientation_table_def ex_model_def)
  have d: "datakeys ex_data = [''a'']" "lookup (meg ex_data) ''a'' = Inr [[3, 4]]"
    "lookup (covariates ex_data) ''a'' = Inr [[1], [2]]"
    by (simp_all add: ex_data_def lookup_def)
  have m: "lookup (Gamma (ex_model [[0]])) ''a'' = Inr [[[2]]]"
    "lookup (Sigma_b (ex_model [[0]])) ''a'' = Inr [[4]]" "n_iterc (ex_model [[0]]) = Suc 0"
    by (simp_all add: ex_model_def lookup_def)
  have "DstRF_solve ex_ext (ex_model [[0]]) ex_data [[0]] no_kwargs
     = Inr ((ex_model [[0]]) \<lparr> Gamma := (Gamma (ex_model [[0]]))(''a'' \<mapsto> [[[5]]]),
                               Sigma_b := (Sigma_b (ex_model [[0]]))(''a'' \<mapsto> [[7]]) \<rparr>)"
    unfolding DstRF_solve_def o
    by (simp add: d m no_kwargs_def index0_def ex_residual_factor ex_champagne_iter)
  then show ?thesis by (simp add: ex_model_def)
qed


section \<open>Lemmas on the outer driver\<close>


lemma bind_err_cong:
  "(\<And>x. m = Inr x \<Longrightarrow> f x = f2 x) \<Longrightarrow> bind_err m f = bind_err m f2"
  by (cases m) simp_all

lemma residual_zero_not_less:
  assumes "residual (zeros r c) th1 = Inr v"
  shows "(v = PInf \<or> v = NaN) \<and> \<not> float_less v tol"
  using residual_from_zero [OF assms] by auto

lemma fit_loop_from_zero:
  "fit_loop ext data tol kw pen (Suc n) (self, zeros r c) =
     bind_err (if kw = no_kwargs then construct_f self data else Inl TypeError) (\<lambda>(fun1, grad1).
     bind_err (case pen of None \<Rightarrow> Inl NameError | Some p \<Rightarrow> Inr p) (\<lambda>(g_funct, prox_g).
     bind_err (Fasta_learn ext fun1 g_funct grad1 prox_g (n_iterf self) (zeros r c)) (\<lambda>coefs.
     bind_err (residual (zeros r c) coefs) (\<lambda>v.
     bind_err (DstRF_solve ext (self \<lparr> err := err self @ [v], theta := Some coefs \<rparr>)
                 data coefs kw)
       (\<lambda>self1. fit_loop ext data tol kw pen n (self1, coefs))))))"
proof -
  have "bind_err (residual (zeros r c) coefs) (\<lambda>v.
       if float_less v tol
       then Inr (self \<lparr> err := err self @ [v], theta := Some coefs \<rparr>)
       else bind_err (DstRF_solve ext (self \<lparr> err := err self @ [v], theta := Some coefs \<rparr>)
                        data coefs kw)
              (\<lambda>self1. fit_loop ext data tol kw pen n (self1, coefs)))
     = bind_err (residual (zeros r c) coefs) (\<lambda>v.
       bind_err (DstRF_solve ext (self \<lparr> err := err self @ [v], theta := Some coefs \<rparr>)
                        data coefs kw)
              (\<lambda>self1. fit_loop ext data tol kw pen n (self1, coefs)))" for coefs
    by (rule bind_err_cong) (simp add: residual_zero_not_less)
  then show ?thesis by simp
qed

lemma set_mu_zero_theta:
  assumes "set_mu self mu1 data = Inr (self1, data1)"
  shows "\<exists>dc. lookup orientation_table (orientation self) = Inr dc
     \<and> theta self1 = Some (zeros (sources_n self * dc)
                             (n_predictor_variables data * ncols (basis data)))
     \<and> n_iter self1 = n_iter self"
  using assms by (auto simp: set_mu_def init_iter_def bind_err_eq_Inr)



lemma ex_set_mu:
  "set_mu (ex_model th) 1 ex_data
     = Inr (ex_model [[0]],
            ex_data \<lparr> bbt := Some [[[25]]], bE := Some [[[11]]], EtE := Some [[[5]]] \<rparr>)"
  by (simp add: set_mu_def init_iter_def precompute_def ex_model_def ex_data_def lookup_def
      orientation_table_def array_defs zeros_def eye_def)

lemma ex_construct_f:
  "\<exists>p. construct_f ((ex_model th) \<lparr> err := e \<rparr>)
          (ex_data \<lparr> bbt := Some [[[25]]], bE := Some [[[11]]], EtE := Some [[[5]]] \<rparr>) = Inr p"
  by (simp add: construct_f_def ex_model_def ex_data_def lookup_def attribute_def nth_err_def
      cholesky_def solve_def array_defs ex_sqrts)

lemma ex_solve_general:
  "DstRF_solve ex_ext ((ex_model th) \<lparr> err := e, theta := t \<rparr>)
       (ex_data \<lparr> bbt := b1, bE := b2, EtE := b3 \<rparr>) [[0]] no_kwargs
     = Inr ((ex_model th) \<lparr> err := e, theta := t, Gamma := [''a'' \<mapsto> [[[5]]]],
                            Sigma_b := [''a'' \<mapsto> [[7]]] \<rparr>)"
proof -
  let ?m = "(ex_model th) \<lparr> err := e, theta := t \<rparr>"
  let ?d = "ex_data \<lparr> bbt := b1, bE := b2, EtE := b3 \<rparr>"
  have o: "lookup orientation_table (orientation ?m) = Inr (Suc 0)"
    by (simp add: lookup_def orientation_table_def ex_model_def)
  have d: "datakeys ex_data = [''a'']" "lookup (meg ex_data) ''a'' = Inr [[3, 4]]"
    "lookup (covariates ex_data) ''a'' = Inr [[1], [2]]"
    by (simp_all add: ex_data_def lookup_def)
  have m: "lookup (Gamma (ex_model th)) ''a'' = Inr [[[2]]]"
    "lookup (Sigma_b (ex_model th)) ''a'' = Inr [[4]]" "n_iterc (ex_model th) = Suc 0"
    by (simp_all add: ex_model_def lookup_def)
  have rf: "residual_factor ?m [[0]] [[3, 4]] [[1], [2]] = Inr [[5]]"
    using ex_residual_factor by (simp add: residual_factor_def ex_model_def)
  have ci: "champagne_iter ex_ext ?m (Suc 0) True [[5]] ([[[2]]], [[4]]) = Inr ([[[5]]], [[7]])"
    using ex_champagne_iter [of th] champagne_iter_cong [of ?m "ex_model th"] by simp
  have "DstRF_solve ex_ext ?m ?d [[0]] no_kwargs
     = Inr (?m \<lparr> Gamma := (Gamma ?m)(''a'' \<mapsto> [[[5]]]),
                 Sigma_b := (Sigma_b ?m)(''a'' \<mapsto> [[7]]) \<rparr>)"
    unfolding DstRF_solve_def o
    by (simp add: d m no_kwargs_def index0_def rf ci)
  then show ?thesis by (simp add: ex_model_def)
qed

lemma ex_fit:
  "fit ex_ext (ex_model [[9]]) ex_data 1 tol no_kwargs
     = Inr ((ex_model [[0]]) \<lparr> err := [NaN], Gamma := [''a'' \<mapsto> [[[5]]]],
                               Sigma_b := [''a'' \<mapsto> [[7]]] \<rparr>)"
proof -
  obtain p where p: "construct_f ((ex_model [[0]]) \<lparr> err := [] \<rparr>)
      (ex_data \<lparr> bbt := Some [[[25]]], bE := Some [[[11]]], EtE := Some [[[5]]] \<rparr>) = Inr p"
    using ex_construct_f by blast
  have z: "zeros (Suc 0) (Suc 0) = [[0]]" by (simp add: zeros_def)
  have r: "residual [[0]] [[0]] = Inr NaN"
    using residual_zero_start [of "Suc 0" "Suc 0" "[[0]]"] by (simp add: z is_mat_def)
  have f: "Fasta_learn ex_ext a b c2 d n t = Inr t" for a b c2 d n t
    by (simp add: ex_ext_def)
  have pen: "penalty ex_ext (orientation (ex_model [[0]])) 1 \<noteq> None"
    by (simp add: penalty_def ex_model_def)
  have th: "theta (ex_model [[0]]) = Some [[0]]" "n_iter (ex_model [[0]]) = Suc 0"
    by (simp_all add: ex_model_def)
  show ?thesis
    using pen
    by (cases p) (auto simp: fit_def ex_set_mu no_kwargs_def attribute_def th p f r
        ex_solve_general [unfolded no_kwargs_def] split: prod.splits)
qed


section \<open>Lemmas on the objective and its gradient\<close>

text \<open>Matrix products and Frobenius inner products of index functions.\<close>


lemma frob_cong:
  "(\<And>i j. i < r \<Longrightarrow> j < c \<Longrightarrow> a i j = a2 i j) \<Longrightarrow>
   (\<And>i j. i < r \<Longrightarrow> j < c \<Longrightarrow> b i j = b2 i j) \<Longrightarrow> frob r c a b = frob r c a2 b2"
  unfolding frob_def by (intro sum.cong refl) simp

lemma fdot_cong:
  "(\<And>k. k < n \<Longrightarrow> a i k = a2 i k) \<Longrightarrow> (\<And>k. k < n \<Longrightarrow> b k j = b2 k j) \<Longrightarrow>
   fdot n a b i j = fdot n a2 b2 i j"
  unfolding fdot_def by (intro sum.cong refl) simp

lemma frob_sym: "frob r c a b = frob r c b a"
  by (simp add: frob_def mult.commute)

lemma frob_nonneg: "0 \<le> frob r c a a"
  unfolding frob_def by (intro sum_nonneg) simp

lemma frob_add_right: "frob r c a (\<lambda>i j. b i j + d i j) = frob r c a b + frob r c a d"
  by (simp add: frob_def algebra_simps sum.distrib)

lemma frob_scale_right: "frob r c a (\<lambda>i j. t * d i j) = t * frob r c a d"
  by (simp add: frob_def sum_distrib_left mult_ac)

lemma frob_sub_right: "frob r c a (\<lambda>i j. b i j - d i j) = frob r c a b - frob r c a d"
  by (simp add: frob_def algebra_simps sum_subtractf)

lemma frob_add_left: "frob r c (\<lambda>i j. b i j + d i j) a = frob r c b a + frob r c d a"
  by (simp add: frob_def algebra_simps sum.distrib)

lemma frob_scale_left: "frob r c (\<lambda>i j. t * d i j) a = t * frob r c d a"
  by (simp add: frob_def sum_distrib_left mult_ac)

lemma frob_sub_left: "frob r c (\<lambda>i j. b i j - d i j) a = frob r c b a - frob r c d a"
  by (simp add: frob_def algebra_simps sum_subtractf)

lemma fdot_add_right: "fdot n a (\<lambda>i j. b i j + d i j) i j = fdot n a b i j + fdot n a d i j"
  by (simp add: fdot_def algebra_simps sum.distrib)

lemma fdot_scale_right: "fdot n a (\<lambda>i j. t * d i j) i j = t * fdot n a d i j"
  by (simp add: fdot_def sum_distrib_left mult_ac)

lemma fdot_sub_right: "fdot n a (\<lambda>i j. b i j - d i j) i j = fdot n a b i j - fdot n a d i j"
  by (simp add: fdot_def algebra_simps sum_subtractf)

lemma fdot_add_left: "fdot n (\<lambda>i j. b i j + d i j) a i j = fdot n b a i j + fdot n d a i j"
  by (simp add: fdot_def algebra_simps sum.distrib)

lemma fdot_scale_left: "fdot n (\<lambda>i j. t * d i j) a i j = t * fdot n d a i j"
  by (simp add: fdot_def sum_distrib_left mult_ac)

lemma fdot_assoc: "fdot n (fdot m a b) c i j = fdot m a (fdot n b c) i j"
proof -
  have "fdot n (fdot m a b) c i j = (\<Sum>k<n. \<Sum>l<m. a i l * b l k * c k j)"
    by (simp add: fdot_def sum_distrib_right)
  also have "\<dots> = (\<Sum>l<m. \<Sum>k<n. a i l * b l k * c k j)"
    by (rule sum.swap)
  also have "\<dots> = fdot m a (fdot n b c) i j"
    by (simp add: fdot_def sum_distrib_left mult.assoc)
  finally show ?thesis .
qed

text \<open>\<open>\<langle>X, A E\<^sup>T\<rangle> = \<langle>X E, A\<rangle>\<close> and \<open>\<langle>Y, L D\<rangle> = \<langle>L\<^sup>T Y, D\<rangle>\<close>.\<close>

lemma frob_adjoint_right:
  "frob r c x (fdot n a (\<lambda>f t. e t f)) = frob r n (fdot c x e) a"
proof -
  have "frob r c x (fdot n a (\<lambda>f t. e t f)) = (\<Sum>i<r. \<Sum>j<c. \<Sum>k<n. x i j * e j k * a i k)"
    by (simp add: frob_def fdot_def sum_distrib_left mult_ac)
  also have "\<dots> = (\<Sum>i<r. \<Sum>k<n. \<Sum>j<c. x i j * e j k * a i k)"
    by (rule sum.cong [OF refl]) (rule sum.swap)
  also have "\<dots> = frob r n (fdot c x e) a"
    by (simp add: frob_def fdot_def sum_distrib_right)
  finally show ?thesis .
qed

lemma frob_adjoint_left:
  "frob r c y (fdot n l d) = frob n c (fdot r (\<lambda>p k. l k p) y) d"
proof -
  have "frob r c y (fdot n l d) = (\<Sum>i<r. \<Sum>j<c. \<Sum>k<n. l i k * y i j * d k j)"
    by (simp add: frob_def fdot_def sum_distrib_left mult_ac)
  also have "\<dots> = (\<Sum>i<r. \<Sum>k<n. \<Sum>j<c. l i k * y i j * d k j)"
    by (rule sum.cong [OF refl]) (rule sum.swap)
  also have "\<dots> = (\<Sum>k<n. \<Sum>i<r. \<Sum>j<c. l i k * y i j * d k j)"
    by (rule sum.swap)
  also have "\<dots> = (\<Sum>k<n. \<Sum>j<c. \<Sum>i<r. l i k * y i j * d k j)"
    by (rule sum.cong [OF refl]) (rule sum.swap)
  also have "\<dots> = frob n c (fdot r (\<lambda>p k. l k p) y) d"
    by (simp add: frob_def fdot_def sum_distrib_right)
  finally show ?thesis .
qed


lemma frob_quadratic:
  fixes x a e :: "nat \<Rightarrow> nat \<Rightarrow> real"
  shows "frob r c (\<lambda>i j. x i j - fdot n a (\<lambda>f t. e t f) i j)
                  (\<lambda>i j. x i j - fdot n a (\<lambda>f t. e t f) i j)
     = frob r c x x - 2 * frob r n (fdot c x e) a
       + frob r n a (fdot n a (fdot c (\<lambda>f t. e t f) e))"
proof -
  define P where "P = fdot n a (\<lambda>f t. e t f)"
  have 1: "frob r c x P = frob r n (fdot c x e) a"
    unfolding P_def by (rule frob_adjoint_right)
  have "frob r c P P = frob r n (fdot c P e) a"
    unfolding P_def by (rule frob_adjoint_right)
  also have "\<dots> = frob r n (fdot n a (fdot c (\<lambda>f t. e t f) e)) a"
    unfolding P_def by (rule frob_cong) (simp_all add: fdot_assoc)
  finally have 2: "frob r c P P = frob r n a (fdot n a (fdot c (\<lambda>f t. e t f) e))"
    by (simp add: frob_sym)
  have "frob r c (\<lambda>i j. x i j - P i j) (\<lambda>i j. x i j - P i j)
      = frob r c x x - frob r c x P - (frob r c P x - frob r c P P)"
    by (simp add: frob_sub_left frob_sub_right)
  also have "\<dots> = frob r c x x - 2 * frob r c x P + frob r c P P"
    by (simp add: frob_sym [of r c P x])
  finally have "frob r c (\<lambda>i j. x i j - P i j) (\<lambda>i j. x i j - P i j)
      = frob r c x x - 2 * frob r n (fdot c x e) a
        + frob r n a (fdot n a (fdot c (\<lambda>f t. e t f) e))"
    by (simp only: 1 2)
  then show ?thesis unfolding P_def .
qed

lemma frob_symmetric_form:
  assumes "\<And>p q. p < n \<Longrightarrow> q < n \<Longrightarrow> m p q = m q p"
  shows "frob r n a (fdot n d m) = frob r n d (fdot n a m)"
proof -
  have "frob r n a (fdot n d m) = (\<Sum>i<r. \<Sum>j<n. \<Sum>k<n. a i j * d i k * m k j)"
    by (simp add: frob_def fdot_def sum_distrib_left mult_ac)
  also have "\<dots> = (\<Sum>i<r. \<Sum>k<n. \<Sum>j<n. a i j * d i k * m k j)"
    by (rule sum.cong [OF refl]) (rule sum.swap)
  also have "\<dots> = (\<Sum>i<r. \<Sum>k<n. \<Sum>j<n. d i k * (a i j * m j k))"
    by (intro sum.cong refl) (simp add: assms mult_ac)
  also have "\<dots> = frob r n d (fdot n a m)"
    by (simp add: frob_def fdot_def sum_distrib_left)
  finally show ?thesis .
qed

text \<open>
  The cached form of the objective, as a function of \<open>A = Lt \<cdot> theta\<close>, along a line
  \<open>A + t D\<close>: a quadratic polynomial in \<open>t\<close> whose linear coefficient is \<open>- \<langle>B - A M, D\<rangle>\<close>.
\<close>

lemma cached_form_line:
  fixes a d b m :: "nat \<Rightarrow> nat \<Rightarrow> real"
  assumes sym: "\<And>p q. p < n \<Longrightarrow> q < n \<Longrightarrow> m p q = m q p"
  shows "- 2 * frob r n b (\<lambda>i j. a i j + t * d i j)
       + frob r n (\<lambda>i j. a i j + t * d i j) (fdot n (\<lambda>i j. a i j + t * d i j) m)
     = (- 2 * frob r n b a + frob r n a (fdot n a m))
       + t * (- 2 * frob r n (\<lambda>i j. b i j - fdot n a m i j) d)
       + t * t * frob r n d (fdot n d m)"
proof -
  let ?Z = "\<lambda>i j. a i j + t * d i j"
  have ZM: "fdot n ?Z m i j = fdot n a m i j + t * fdot n d m i j" for i j
    by (simp add: fdot_def algebra_simps sum.distrib sum_distrib_left)
  have "frob r n ?Z (fdot n ?Z m)
      = frob r n ?Z (\<lambda>i j. fdot n a m i j + t * fdot n d m i j)"
    by (rule frob_cong) (simp_all add: ZM)
  also have "\<dots> = frob r n a (fdot n a m) + t * frob r n a (fdot n d m)
      + t * frob r n d (fdot n a m) + t * t * frob r n d (fdot n d m)"
    by (simp add: frob_add_left frob_add_right frob_scale_left frob_scale_right algebra_simps)
  also have "frob r n a (fdot n d m) = frob r n d (fdot n a m)"
    using sym by (rule frob_symmetric_form)
  finally have 1: "frob r n ?Z (fdot n ?Z m)
      = frob r n a (fdot n a m) + 2 * t * frob r n d (fdot n a m)
        + t * t * frob r n d (fdot n d m)"
    by simp
  have 2: "frob r n b ?Z = frob r n b a + t * frob r n b d"
    by (simp add: frob_add_right frob_scale_right)
  have 3: "frob r n (\<lambda>i j. b i j - fdot n a m i j) d = frob r n b d - frob r n d (fdot n a m)"
    by (simp add: frob_sub_left frob_sym [of r n "fdot n a m" d])
  show ?thesis
    unfolding 1 2 3 by (simp add: algebra_simps)
qed


lemma linv_right_inverse:
  assumes L: "lower_triangular L" "nrows L = n" "\<And>i. i < n \<Longrightarrow> L ! i ! i \<noteq> 0" and n: "0 < n"
    and i: "i < n" and p: "p < n"
  shows "fdot n (\<lambda>i k. L ! i ! k) (linv L) i p = (if i = p then 1 else 0)"
proof -
  note lt = lower_triangularD [OF L(1,2)]
  have I: "is_mat n n (eye n)" by (simp add: eye_def)
  have s: "solve L (eye n) = Inr (mk_mat n n (linv L))"
    using solve_mk [OF lt(1) L(3) I n] by (simp add: linv_def [abs_def] L(2))
  from solve_correct [OF L I n] s have "dot L (mk_mat n n (linv L)) = eye n" by auto
  then have "dot L (mk_mat n n (linv L)) ! i ! p = eye n ! i ! p" by simp
  then show ?thesis
    using i p by (simp add: dot_mk [OF lt(1) _ n, of n] eye_def fdot_def)
qed

lemma solve_linv:
  assumes L: "lower_triangular L" "nrows L = n" "\<And>i. i < n \<Longrightarrow> L ! i ! i \<noteq> 0" and n: "0 < n"
    and B: "is_mat n c B"
  shows "solve L B = Inr (mk_mat n c (fdot n (linv L) (\<lambda>i j. B ! i ! j)))"
proof -
  note lt = lower_triangularD [OF L(1,2)]
  let ?Y = "mk_mat n c (fdot n (linv L) (\<lambda>i j. B ! i ! j))"
  have "dot L ?Y = B"
  proof (rule mat_eqI [of n c])
    show "is_mat n c (dot L ?Y)" by (simp add: dot_mk [OF lt(1) _ n, of c])
    show "is_mat n c B" by fact
    fix i j assume i: "i < n" and j: "j < c"
    have "dot L ?Y ! i ! j = fdot n (\<lambda>i k. L ! i ! k) (fdot n (linv L) (\<lambda>i j. B ! i ! j)) i j"
      using i j by (simp add: dot_mk [OF lt(1) _ n, of c] fdot_def [of n "\<lambda>i k. L ! i ! k"])
    also have "\<dots> = fdot n (fdot n (\<lambda>i k. L ! i ! k) (linv L)) (\<lambda>i j. B ! i ! j) i j"
      by (simp add: fdot_assoc)
    also have "\<dots> = fdot n (\<lambda>i p. if i = p then 1 else 0) (\<lambda>i j. B ! i ! j) i j"
      by (rule fdot_cong) (simp_all add: linv_right_inverse [OF L n i])
    also have "\<dots> = (\<Sum>k<n. if i = k then B ! k ! j else 0)"
      unfolding fdot_def by (intro sum.cong refl) simp
    also have "\<dots> = B ! i ! j"
      using i by (simp add: sum.delta')
    finally show "dot L ?Y ! i ! j = B ! i ! j" .
  qed
  then show ?thesis
    using solve_eqI [OF L _ n, of c ?Y] by simp
qed


text \<open>The array operations on arrays given by index functions.\<close>

lemma dot_mkmk: "0 < n \<Longrightarrow> dot (mk_mat r n f) (mk_mat n c h) = mk_mat r c (fdot n f h)"
  by (subst dot_mk [of r n _ c]) (auto intro!: mk_mat_cong simp: fdot_def)

lemma np_dot_mkmk:
  "0 < n \<Longrightarrow> 0 < r \<Longrightarrow> np_dot (mk_mat r n f) (mk_mat n c h) = Inr (mk_mat r c (fdot n f h))"
  by (simp add: np_dot_def dot_mkmk)

lemma transpose_mkmk: "0 < r \<Longrightarrow> transpose_m (mk_mat r c f) = mk_mat c r (\<lambda>i j. f j i)"
  by (subst transpose_mk [of r c]) (auto intro!: mk_mat_cong)

lemma np_sub_mkmk:
  "np_sub (mk_mat r c f) (mk_mat r c h) = Inr (mk_mat r c (\<lambda>i j. f i j - h i j))"
  by (subst np_sub_mk [of r c]) (auto intro!: mk_mat_cong)

lemma np_iadd_mkmk:
  "np_iadd (mk_mat r c f) (mk_mat r c h) = Inr (mk_mat r c (\<lambda>i j. f i j + h i j))"
proof -
  have "np_add (mk_mat r c f) (mk_mat r c h) = Inr (mk_mat r c (\<lambda>i j. f i j + h i j))"
    by (subst np_add_mk [of r c]) (auto intro!: mk_mat_cong)
  then show ?thesis
    by (cases "r = 0") (simp_all add: np_iadd_def)
qed

lemma scale_mkmk: "scale a (mk_mat r c f) = mk_mat r c (\<lambda>i j. a * f i j)"
  by (subst scale_mk [of r c]) (auto intro!: mk_mat_cong)

lemma solve_linv_mk:
  assumes "lower_triangular L" "nrows L = n" "\<And>i. i < n \<Longrightarrow> L ! i ! i \<noteq> 0" "0 < n"
  shows "solve L (mk_mat n c f) = Inr (mk_mat n c (fdot n (linv L) f))"
proof -
  have "mk_mat n c (fdot n (linv L) (\<lambda>i j. mk_mat n c f ! i ! j)) = mk_mat n c (fdot n (linv L) f)"
    by (rule mk_mat_cong) (simp add: fdot_def)
  then show ?thesis
    using solve_linv [OF assms, of c "mk_mat n c f"] by simp
qed

lemma inner1d_mkmk:
  assumes "0 < r"
  shows "inner1d (mk_mat r c f) (mk_mat r c h) = Inr (map (\<lambda>i. \<Sum>j<c. f i j * h i j) [0..<r])"
proof -
  have "map (\<lambda>i. sum_list (map (\<lambda>j. mk_mat r c f ! (if r = 1 then 0 else i) ! j
                                   * mk_mat r c h ! (if r = 1 then 0 else i) ! j) [0..<c])) [0..<r]
      = map (\<lambda>i. \<Sum>j<c. f i j * h i j) [0..<r]"
    by (rule map_cong [OF refl]) (auto simp: sum_upt intro!: sum.cong)
  then show ?thesis
    using assms by (simp add: inner1d_def bc_dim_def)
qed

lemma sum_inner1d_mkmk:
  assumes "0 < r"
  shows "bind_err (inner1d (mk_mat r c f) (mk_mat r c h)) (\<lambda>s. k (sum_list s)) = k (frob r c f h)"
  by (simp add: inner1d_mkmk [OF assms] sum_upt frob_def)

lemma msum_square_mk: "msum (square (mk_mat r c f)) = frob r c f f"
proof -
  have "square (mk_mat r c f) = mk_mat r c (\<lambda>i j. f i j * f i j)"
    unfolding square_def by (subst map_map_mk [of r c]) (auto intro!: mk_mat_cong)
  then show ?thesis by (simp add: msum_mk frob_def)
qed

lemma inner_mat_mkmk:
  assumes "0 < r"
  shows "inner_mat (mk_mat r c f) (mk_mat r c h) = frob r c f h"
proof -
  have "map (\<lambda>i. sum_list (map (\<lambda>j. mk_mat r c f ! i ! j * mk_mat r c h ! i ! j) [0..<c])) [0..<r]
      = map (\<lambda>i. \<Sum>j<c. f i j * h i j) [0..<r]"
    by (rule map_cong [OF refl]) (auto simp: sum_upt intro!: sum.cong)
  then show ?thesis
    using assms by (simp add: inner_mat_def sum_upt frob_def)
qed

lemma line_point_mkmk:
  assumes "0 < r"
  shows "line_point (mk_mat r c f) (mk_mat r c d) t = mk_mat r c (\<lambda>i j. f i j + t * d i j)"
  using assms by (auto simp: line_point_def intro!: mk_mat_cong)


text \<open>The trace of the doubly whitened \<open>b b\<^sup>T\<close> is the squared norm of the whitened \<open>b\<close>.\<close>

lemma trace_whitened:
  fixes w b :: "nat \<Rightarrow> nat \<Rightarrow> real"
  shows "(\<Sum>i<K. fdot K w (\<lambda>k j. fdot K w (fdot T b (\<lambda>t k. b k t)) j k) i i)
       = frob K T (fdot K w b) (fdot K w b)"
proof -
  have "fdot K w (\<lambda>k j. fdot K w (fdot T b (\<lambda>t k. b k t)) j k) i i
      = (\<Sum>t<T. fdot K w b i t * fdot K w b i t)" for i
  proof -
    have "fdot K w (\<lambda>k j. fdot K w (fdot T b (\<lambda>t k. b k t)) j k) i i
        = (\<Sum>k<K. \<Sum>p<K. \<Sum>t<T. (w i k * b k t) * (w i p * b p t))"
      by (simp add: fdot_def sum_distrib_left mult_ac)
    also have "\<dots> = (\<Sum>k<K. \<Sum>t<T. \<Sum>p<K. (w i k * b k t) * (w i p * b p t))"
      by (rule sum.cong [OF refl]) (rule sum.swap)
    also have "\<dots> = (\<Sum>t<T. \<Sum>k<K. \<Sum>p<K. (w i k * b k t) * (w i p * b p t))"
      by (rule sum.swap)
    also have "\<dots> = (\<Sum>t<T. fdot K w b i t * fdot K w b i t)"
      by (simp add: fdot_def sum_product)
    finally show ?thesis .
  qed
  then show ?thesis by (simp add: frob_def)
qed

lemma f_trial_mk:
  assumes "0 < K" "0 < N" "0 < F"
  shows "f_trial (mk_mat K N lt) (mk_mat N F th) c (mk_mat K F be) (mk_mat F F m)
       = Inr (quad_value K N F lt be m c th)"
  using assms
  by (simp add: f_trial_def np_dot_mkmk inner1d_mkmk sum_upt quad_value_def frob_def)

lemma gradf_trial_mk:
  assumes "0 < K" "0 < N" "0 < F"
  shows "gradf_trial (mk_mat K N lt) (mk_mat N F th) (mk_mat K F be) (mk_mat F F m)
       = Inr (mk_mat N F (quad_grad K N F lt be m th))"
proof -
  have "mk_mat N F (\<lambda>i j. - 1 * fdot K (\<lambda>i j. lt j i)
                              (\<lambda>i j. be i j - fdot F (fdot N lt th) m i j) i j)
      = mk_mat N F (quad_grad K N F lt be m th)"
    by (rule mk_mat_cong) (simp add: quad_grad_def)
  then show ?thesis
    using assms
    by (simp add: gradf_trial_def np_dot_mkmk np_sub_mkmk transpose_mkmk scale_mkmk
          del: mult_minus1)
qed

lemma frob_minus_left: "frob r c (\<lambda>i j. - a i j) d = - frob r c a d"
  using frob_scale_left [of r c "- 1" a d] by simp

lemma quad_value_line:
  fixes lt be m th d :: "nat \<Rightarrow> nat \<Rightarrow> real"
  assumes sym: "\<And>p q. p < F \<Longrightarrow> q < F \<Longrightarrow> m p q = m q p"
  shows "quad_value K N F lt be m c (\<lambda>i j. th i j + t * d i j)
       = quad_value K N F lt be m c th
         + t * frob N F (quad_grad K N F lt be m th) d
         + t * t * ((1 / 2) * frob K F (fdot N lt d) (fdot F (fdot N lt d) m))"
proof -
  let ?A = "fdot N lt th" and ?D = "fdot N lt d"
  have A: "fdot N lt (\<lambda>i j. th i j + t * d i j) = (\<lambda>i j. ?A i j + t * ?D i j)"
    by (intro ext) (simp add: fdot_def algebra_simps sum.distrib sum_distrib_left)
  have g: "frob N F (quad_grad K N F lt be m th) d
         = - frob K F (\<lambda>i j. be i j - fdot F ?A m i j) ?D"
    unfolding quad_grad_def [abs_def] frob_minus_left
    by (simp add: frob_adjoint_left [of K F _ N lt d])
  have c: "- 2 * frob K F be (\<lambda>i j. ?A i j + t * ?D i j)
       + frob K F (\<lambda>i j. ?A i j + t * ?D i j) (fdot F (\<lambda>i j. ?A i j + t * ?D i j) m)
     = (- 2 * frob K F be ?A + frob K F ?A (fdot F ?A m))
       + t * (- 2 * frob K F (\<lambda>i j. be i j - fdot F ?A m i j) ?D)
       + t * t * frob K F ?D (fdot F ?D m)"
    by (rule cached_form_line) (rule sym)
  show ?thesis
    unfolding quad_value_def A g using c by (simp add: algebra_simps)
qed


lemma fdot_assoc_fun: "fdot n (fdot m a b) c = fdot m a (fdot n b c)"
  by (intro ext) (rule fdot_assoc)

text \<open>
  One trial: \<open>G\<close> the lead field, \<open>b\<close> the sensor series, \<open>E\<close> the covariates and \<open>L\<close> a lower
  triangular factor with nonzero diagonal.  First the constants \<^verbatim>\<open>_construct_f\<close> computes
  from the cached statistics.
\<close>

lemma trial_leadfield:
  assumes L: "lower_triangular L" "nrows L = K" "\<And>i. i < K \<Longrightarrow> L ! i ! i \<noteq> 0" "0 < K"
    and G: "is_mat K N G"
  shows "solve L G = Inr (mk_mat K N (white L G))"
  using solve_linv [OF L G] by (simp add: white_def L(2))

lemma trial_bE:
  assumes L: "lower_triangular L" "nrows L = K" "\<And>i. i < K \<Longrightarrow> L ! i ! i \<noteq> 0" "0 < K"
    and b: "is_mat K T b" and E: "is_mat T F E" and T: "0 < T"
  shows "solve L (dot b E) = Inr (mk_mat K F (fdot T (white L b) (\<lambda>i j. E ! i ! j)))"
proof -
  have "dot b E = mk_mat K F (fdot T (\<lambda>i j. b ! i ! j) (\<lambda>i j. E ! i ! j))"
    by (simp add: dot_mk [OF b E T] fdot_def [abs_def])
  then show ?thesis
    by (simp add: solve_linv_mk [OF L] white_def L(2) fdot_assoc_fun)
qed

lemma trial_bbt:
  assumes L: "lower_triangular L" "nrows L = K" "\<And>i. i < K \<Longrightarrow> L ! i ! i \<noteq> 0" "0 < K"
    and b: "is_mat K T b" and T: "0 < T"
  shows "bind_err (solve L (dot b (transpose_m b)))
           (\<lambda>s. bind_err (solve L (transpose_m s)) (\<lambda>s2. Inr (trace s2)))
       = Inr (frob K T (white L b) (white L b))"
proof -
  have "dot b (transpose_m b) = dot (mk_mat K T (\<lambda>i j. b ! i ! j)) (mk_mat T K (\<lambda>t k. b ! k ! t))"
    by (simp add: transpose_mk [OF b L(4)] mk_mat_eq [OF b])
  also have "\<dots> = mk_mat K K (fdot T (\<lambda>i j. b ! i ! j) (\<lambda>t k. b ! k ! t))"
    by (rule dot_mkmk [OF T])
  finally show ?thesis
    using L(4)
    by (simp add: solve_linv_mk [OF L] transpose_mkmk trace_mk trace_whitened white_def L(2))
qed

lemma trial_EtE:
  assumes E: "is_mat T F E" and T: "0 < T"
  shows "dot (transpose_m E) E = mk_mat F F (fdot T (\<lambda>f t. E ! t ! f) (\<lambda>i j. E ! i ! j))"
proof -
  have "dot (transpose_m E) E = dot (mk_mat F T (\<lambda>f t. E ! t ! f)) (mk_mat T F (\<lambda>i j. E ! i ! j))"
    by (simp add: transpose_mk [OF E T] mk_mat_eq [OF E])
  then show ?thesis by (simp add: dot_mkmk [OF T])
qed

text \<open>The explicit residual of the trial has the value of the cached form.\<close>

lemma residual_energy_eq:
  assumes L: "lower_triangular L" "nrows L = K" "\<And>i. i < K \<Longrightarrow> L ! i ! i \<noteq> 0" "0 < K"
    and G: "is_mat K N G" and b: "is_mat K T b" and E: "is_mat T F E"
    and pos: "0 < N" "0 < T" "0 < F"
  shows "residual_energy G b E L (mk_mat N F th)
       = Inr (quad_value K N F (white L G) (fdot T (white L b) (\<lambda>i j. E ! i ! j))
                (fdot T (\<lambda>f t. E ! t ! f) (\<lambda>i j. E ! i ! j))
                (frob K T (white L b) (white L b)) th)"
proof -
  let ?G = "\<lambda>i j. G ! i ! j" and ?b = "\<lambda>i j. b ! i ! j" and ?E = "\<lambda>i j. E ! i ! j"
  let ?Et = "\<lambda>f t. E ! t ! f"
  let ?w = "linv L"
  let ?A = "fdot N (fdot K ?w ?G) th"
  have Et: "transpose_m E = mk_mat F T ?Et" by (rule transpose_mk [OF E pos(2)])
  have y: "fdot K ?w (\<lambda>i j. ?b i j - fdot F (fdot N ?G th) ?Et i j)
         = (\<lambda>i j. fdot K ?w ?b i j - fdot F ?A ?Et i j)"
    by (intro ext) (simp add: fdot_sub_right fdot_assoc_fun)
  have "residual_energy (mk_mat K N ?G) (mk_mat K T ?b) E L (mk_mat N F th)
      = Inr ((1 / 2) * frob K T (\<lambda>i j. fdot K ?w ?b i j - fdot F ?A ?Et i j)
                                (\<lambda>i j. fdot K ?w ?b i j - fdot F ?A ?Et i j))"
    using pos L(4)
    by (simp add: residual_energy_def Et np_dot_mkmk np_sub_mkmk solve_linv_mk [OF L]
          msum_square_mk y)
  then show ?thesis
    by (simp add: mk_mat_eq [OF G] mk_mat_eq [OF b] frob_quadratic quad_value_def white_def L(2))
qed


lemma trial_value_line:
  "trial_value K N F T G b E L (\<lambda>i j. th i j + t * d i j)
     = trial_value K N F T G b E L th + t * frob N F (trial_grad K N F T G b E L th) d
       + t * t * trial_curv K N F T G E L d"
  unfolding trial_value_def trial_grad_def trial_curv_def
  by (rule quad_value_line) (simp add: fdot_def mult.commute)

lemma trial_f:
  assumes L: "lower_triangular L" "nrows L = K" "\<And>i. i < K \<Longrightarrow> L ! i ! i \<noteq> 0" "0 < K"
    and E: "is_mat T F E" and pos: "0 < N" "0 < T" "0 < F"
  shows "f_trial (mk_mat K N (white L G)) (mk_mat N F th) (frob K T (white L b) (white L b))
           (mk_mat K F (fdot T (white L b) (\<lambda>i j. E ! i ! j))) (dot (transpose_m E) E)
       = Inr (trial_value K N F T G b E L th)"
  unfolding trial_EtE [OF E pos(2)] trial_value_def by (rule f_trial_mk [OF L(4) pos(1,3)])

lemma trial_gradf:
  assumes L: "0 < K"
    and E: "is_mat T F E" and pos: "0 < N" "0 < T" "0 < F"
  shows "gradf_trial (mk_mat K N (white L G)) (mk_mat N F th)
           (mk_mat K F (fdot T (white L b) (\<lambda>i j. E ! i ! j))) (dot (transpose_m E) E)
       = Inr (mk_mat N F (trial_grad K N F T G b E L th))"
  unfolding trial_EtE [OF E pos(2)] trial_grad_def by (rule gradf_trial_mk [OF L pos(1,3)])

lemma trial_explicit:
  assumes L: "lower_triangular L" "nrows L = K" "\<And>i. i < K \<Longrightarrow> L ! i ! i \<noteq> 0" "0 < K"
    and G: "is_mat K N G" and b: "is_mat K T b" and E: "is_mat T F E"
    and pos: "0 < N" "0 < T" "0 < F"
  shows "residual_energy G b E L (mk_mat N F th) = Inr (trial_value K N F T G b E L th)"
  unfolding trial_value_def by (rule residual_energy_eq [OF assms])

text \<open>Lists of results, and the loops over the trials.\<close>

lemma map_err_map: "(\<And>x. x \<in> set xs \<Longrightarrow> h x = Inr (f2 x)) \<Longrightarrow> map_err h xs = Inr (map f2 xs)"
proof (induction xs)
  case Nil
  show ?case by simp
next
  case (Cons a xs)
  have 1: "h a = Inr (f2 a)" by (rule Cons.prems) simp
  have 2: "map_err h xs = Inr (map f2 xs)" by (rule Cons.IH) (simp add: Cons.prems)
  show ?case by (simp add: 1 2)
qed

lemma map_nth_keys: "map (\<lambda>i. f2 (xs ! i)) [0..<length xs] = map f2 xs"
  by (rule nth_equalityI) simp_all

lemma map_err_indices:
  assumes "\<And>i. i < length xs \<Longrightarrow> h i = Inr (f2 (xs ! i))"
  shows "map_err h [0..<length xs] = Inr (map f2 xs)"
proof -
  have "map_err h [0..<length xs] = Inr (map (\<lambda>i. f2 (xs ! i)) [0..<length xs])"
    by (rule map_err_map) (simp add: assms)
  then show ?thesis by (simp add: map_nth_keys)
qed

lemma funct_loop_sum:
  assumes "\<And>i. i \<in> set ts \<Longrightarrow> i < length ks \<and>
     f_trial (ltm (ks ! i)) x (cf (ks ! i)) (bem (ks ! i)) (mm (ks ! i)) = Inr (v (ks ! i))"
  shows "funct_loop (map ltm ks) (map cf ks) (map bem ks) (Some (map mm ks)) x ts acc
       = Inr (acc + sum_list (map (\<lambda>i. v (ks ! i)) ts))"
  using assms
proof (induction ts arbitrary: acc)
  case Nil
  show ?case by simp
next
  case (Cons i ts)
  have 1: "i < length ks"
    and 2: "f_trial (ltm (ks ! i)) x (cf (ks ! i)) (bem (ks ! i)) (mm (ks ! i)) = Inr (v (ks ! i))"
    using Cons.prems [of i] by simp_all
  have 3: "funct_loop (map ltm ks) (map cf ks) (map bem ks) (Some (map mm ks)) x ts (acc + v (ks ! i))
         = Inr (acc + v (ks ! i) + sum_list (map (\<lambda>i. v (ks ! i)) ts))"
    by (rule Cons.IH) (simp add: Cons.prems)
  show ?case
    using 1 by (simp add: 2 3 nth_err_def attribute_def add.assoc)
qed

lemma explicit_loop_sum:
  assumes "\<And>key. key \<in> set ks \<Longrightarrow> explicit_trial self data th key = Inr (v key)"
  shows "explicit_loop self data th ks acc = Inr (acc + sum_list (map v ks))"
  using assms
proof (induction ks arbitrary: acc)
  case Nil
  show ?case by simp
next
  case (Cons key ks)
  have 1: "explicit_trial self data th key = Inr (v key)" by (rule Cons.prems) simp
  have 2: "explicit_loop self data th ks (acc + v key) = Inr (acc + v key + sum_list (map v ks))"
    by (rule Cons.IH) (simp add: Cons.prems)
  show ?case by (simp add: 1 2 add.assoc)
qed

lemma grad_loop_sum:
  assumes "\<And>i. i \<in> set ts \<Longrightarrow> Suc i < length ks \<and>
     gradf_trial (ltm (ks ! Suc i)) x (bem (ks ! Suc i)) (mm (ks ! Suc i))
       = Inr (mk_mat N F (gq (ks ! Suc i)))"
  shows "grad_loop (map ltm ks) (map bem ks) (Some (map mm ks)) x ts (mk_mat N F a)
       = Inr (mk_mat N F (\<lambda>i j. a i j + sum_list (map (\<lambda>tr. gq (ks ! Suc tr) i j) ts)))"
  using assms
proof (induction ts arbitrary: a)
  case Nil
  then show ?case by simp
next
  case (Cons tr ts)
  have 1: "gradf_at (map ltm ks) (map bem ks) (Some (map mm ks)) x (Suc tr)
         = Inr (mk_mat N F (gq (ks ! Suc tr)))"
    using Cons.prems [of tr] by (simp add: gradf_at_def nth_err_def attribute_def)
  have 2: "grad_loop (map ltm ks) (map bem ks) (Some (map mm ks)) x ts
             (mk_mat N F (\<lambda>i j. a i j + gq (ks ! Suc tr) i j))
         = Inr (mk_mat N F (\<lambda>i j. (a i j + gq (ks ! Suc tr) i j)
                  + sum_list (map (\<lambda>tr. gq (ks ! Suc tr) i j) ts)))"
    by (rule Cons.IH) (simp add: Cons.prems)
  show ?case
    by (simp add: 1 2 np_iadd_mkmk add.assoc)
qed

lemma frob_sum_list_left:
  "frob r c (\<lambda>i j. sum_list (map (\<lambda>key. gq key i j) ks)) d
     = sum_list (map (\<lambda>key. frob r c (gq key) d) ks)"
proof (induction ks)
  case Nil
  then show ?case by (simp add: frob_def)
next
  case (Cons key ks)
  then show ?case by (simp add: frob_add_left)
qed


lemma valid_trial_facts:
  assumes "valid_trial K F self data key" "0 < K"
  shows "\<exists>b E L T. trial_facts K F self data key b E L T"
proof -
  from assms(1) obtain b E S L where
    f: "meg data key = Some b" "covariates data key = Some E" "Sigma_b self key = Some S"
       "0 < ncols b" "is_mat K (ncols b) b" "is_mat (ncols b) F E" "nrows S = K"
       "cholesky S = Inr L"
    by (auto simp: valid_trial_def split: option.splits sum.splits)
  note p = cholesky_props [OF f(8,7)]
  have "L ! i ! i \<noteq> 0" if "i < K" for i using p(4) [OF that] by simp
  then have "trial_facts K F self data key b E L (ncols b)"
    unfolding trial_facts_def using f p(2,3) by (simp add: lookup_def)
  then show ?thesis by blast
qed

lemma precompute_loop_ok:
  assumes tf: "\<And>key. key \<in> set ks \<Longrightarrow>
      trial_facts K F self data key (bf key) (Ef key) (Lf key) (Tf key)"
    and pos: "0 < K" "0 < F"
  shows "precompute_loop data ks
       = Inr (map (\<lambda>key. dot (bf key) (transpose_m (bf key))) ks,
              map (\<lambda>key. dot (bf key) (Ef key)) ks,
              map (\<lambda>key. dot (transpose_m (Ef key)) (Ef key)) ks)"
  using tf
proof (induction ks)
  case Nil
  show ?case by simp
next
  case (Cons key ks)
  have t: "trial_facts K F self data key (bf key) (Ef key) (Lf key) (Tf key)"
    by (rule Cons.prems) simp
  then have b: "is_mat K (Tf key) (bf key)" and E: "is_mat (Tf key) F (Ef key)"
    and T: "0 < Tf key" and m: "meg data key = Some (bf key)"
    and c: "covariates data key = Some (Ef key)"
    by (simp_all add: trial_facts_def)
  have 1: "np_dot (bf key) (transpose_m (bf key)) = Inr (dot (bf key) (transpose_m (bf key)))"
    by (simp add: np_dot_def transpose_m_def)
  have 2: "np_dot (bf key) (Ef key) = Inr (dot (bf key) (Ef key))"
    using is_mat_ncols [OF b pos(1)] is_mat_nrows [OF E] by (simp add: np_dot_def)
  have 3: "np_dot (transpose_m (Ef key)) (Ef key) = Inr (dot (transpose_m (Ef key)) (Ef key))"
    using is_mat_nrows [OF E] pos(2) by (simp add: np_dot_def transpose_mk [OF E T])
  have 4: "precompute_loop data ks
       = Inr (map (\<lambda>key. dot (bf key) (transpose_m (bf key))) ks,
              map (\<lambda>key. dot (bf key) (Ef key)) ks,
              map (\<lambda>key. dot (transpose_m (Ef key)) (Ef key)) ks)"
    by (rule Cons.IH) (simp add: Cons.prems)
  show ?case by (simp add: m c lookup_def 1 2 3 4)
qed

lemma construct_f_cached:
  fixes self :: "'k DstRF" and data :: "'k REG_Data"
  assumes tf: "\<And>key. key \<in> set (datakeys data) \<Longrightarrow>
      trial_facts K F self data key (bf key) (Ef key) (Lf key) (Tf key)"
    and keys: "keys self = datakeys data" and G: "is_mat K N (lead_field self)"
    and pos: "0 < K" "0 < F"
    and data1: "data1 = data \<lparr> bbt := Some (map (\<lambda>key. dot (bf key) (transpose_m (bf key))) (datakeys data)),
                    bE := Some (map (\<lambda>key. dot (bf key) (Ef key)) (datakeys data)),
                    EtE := Some (map (\<lambda>key. dot (transpose_m (Ef key)) (Ef key)) (datakeys data)) \<rparr>"
  shows "precompute data = Inr data1"
    and "construct_f self data1
       = Inr (funct (map (\<lambda>key. mk_mat K N (white (Lf key) (lead_field self))) (datakeys data))
                (map (\<lambda>key. frob K (Tf key) (white (Lf key) (bf key)) (white (Lf key) (bf key)))
                   (datakeys data))
                (map (\<lambda>key. mk_mat K F (fdot (Tf key) (white (Lf key) (bf key))
                                           (\<lambda>i j. Ef key ! i ! j))) (datakeys data))
                (Some (map (\<lambda>key. dot (transpose_m (Ef key)) (Ef key)) (datakeys data)))
                (length (datakeys data)),
              grad_funct (map (\<lambda>key. mk_mat K N (white (Lf key) (lead_field self))) (datakeys data))
                (map (\<lambda>key. mk_mat K F (fdot (Tf key) (white (Lf key) (bf key))
                                           (\<lambda>i j. Ef key ! i ! j))) (datakeys data))
                (Some (map (\<lambda>key. dot (transpose_m (Ef key)) (Ef key)) (datakeys data)))
                (length (datakeys data)))"
proof -
  let ?ks = "datakeys data"
  show "precompute data = Inr data1"
    by (simp add: precompute_def precompute_loop_ok [OF tf pos] data1)
  have L: "lower_triangular (Lf (?ks ! i))" "nrows (Lf (?ks ! i)) = K"
      "\<And>p. p < K \<Longrightarrow> Lf (?ks ! i) ! p ! p \<noteq> 0"
      "is_mat K (Tf (?ks ! i)) (bf (?ks ! i))" "is_mat (Tf (?ks ! i)) F (Ef (?ks ! i))"
      "0 < Tf (?ks ! i)"
    if "i < length ?ks" for i
    using tf [of "?ks ! i"] that by (simp_all add: trial_facts_def)
  have 1: "map_err (\<lambda>key. bind_err (lookup (Sigma_b self) key) cholesky) ?ks = Inr (map Lf ?ks)"
    by (rule map_err_map) (use tf in \<open>simp add: trial_facts_def\<close>)
  have 2: "map_err (\<lambda>trial. bind_err (nth_err (map Lf ?ks) trial) (\<lambda>L. solve L (lead_field self)))
             [0..<length ?ks]
         = Inr (map (\<lambda>key. mk_mat K N (white (Lf key) (lead_field self))) ?ks)"
    by (rule map_err_indices)
       (simp add: nth_err_def trial_leadfield [OF L(1,2,3) pos(1) G])
  have 3: "map_err (\<lambda>trial. bind_err (nth_err (map Lf ?ks) trial) (\<lambda>L.
                      bind_err (attribute (bE data1)) (\<lambda>bE_list.
                      bind_err (nth_err bE_list trial) (\<lambda>b. solve L b))))
             [0..<length ?ks]
         = Inr (map (\<lambda>key. mk_mat K F (fdot (Tf key) (white (Lf key) (bf key))
                                          (\<lambda>i j. Ef key ! i ! j))) ?ks)"
    by (rule map_err_indices)
       (simp add: nth_err_def attribute_def data1 trial_bE [OF L(1,2,3) pos(1) L(4,5,6)])
  have 4: "map_err (\<lambda>trial. bind_err (nth_err (map Lf ?ks) trial) (\<lambda>L.
                      bind_err (attribute (bbt data1)) (\<lambda>bbt_list.
                      bind_err (nth_err bbt_list trial) (\<lambda>b.
                      bind_err (solve L b) (\<lambda>s.
                      bind_err (solve L (transpose_m s)) (\<lambda>s2. Inr (trace s2)))))))
             [0..<length ?ks]
         = Inr (map (\<lambda>key. frob K (Tf key) (white (Lf key) (bf key)) (white (Lf key) (bf key))) ?ks)"
    by (rule map_err_indices)
       (simp add: nth_err_def attribute_def data1 trial_bbt [OF L(1,2,3) pos(1) L(4,6)])
  have d: "datakeys data1 = ?ks" "EtE data1 = Some (map (\<lambda>key. dot (transpose_m (Ef key)) (Ef key)) ?ks)"
    by (simp_all add: data1)
  show "construct_f self data1 = Inr (funct (map (\<lambda>key. mk_mat K N (white (Lf key) (lead_field self))) (datakeys data))
                (map (\<lambda>key. frob K (Tf key) (white (Lf key) (bf key)) (white (Lf key) (bf key)))
                   (datakeys data))
                (map (\<lambda>key. mk_mat K F (fdot (Tf key) (white (Lf key) (bf key))
                                           (\<lambda>i j. Ef key ! i ! j))) (datakeys data))
                (Some (map (\<lambda>key. dot (transpose_m (Ef key)) (Ef key)) (datakeys data)))
                (length (datakeys data)),
              grad_funct (map (\<lambda>key. mk_mat K N (white (Lf key) (lead_field self))) (datakeys data))
                (map (\<lambda>key. mk_mat K F (fdot (Tf key) (white (Lf key) (bf key))
                                           (\<lambda>i j. Ef key ! i ! j))) (datakeys data))
                (Some (map (\<lambda>key. dot (transpose_m (Ef key)) (Ef key)) (datakeys data)))
                (length (datakeys data)))"
    unfolding construct_f_def keys d 1 bind_err_simps 2 3 4 by (rule refl)
qed


text \<open>The values of the closures and of the explicit objective, as sums over the trials.\<close>

lemma funct_value:
  fixes self :: "'k DstRF" and data :: "'k REG_Data"
  assumes tf: "\<And>key. key \<in> set ks \<Longrightarrow>
      trial_facts K F self data key (bf key) (Ef key) (Lf key) (Tf key)"
    and pos: "0 < K" "0 < N" "0 < F"
  shows "funct (map (\<lambda>key. mk_mat K N (white (Lf key) G)) ks)
           (map (\<lambda>key. frob K (Tf key) (white (Lf key) (bf key)) (white (Lf key) (bf key))) ks)
           (map (\<lambda>key. mk_mat K F (fdot (Tf key) (white (Lf key) (bf key))
                                      (\<lambda>i j. Ef key ! i ! j))) ks)
           (Some (map (\<lambda>key. dot (transpose_m (Ef key)) (Ef key)) ks))
           (length ks) (mk_mat N F th)
       = Inr (sum_list (map (\<lambda>key. trial_value K N F (Tf key) G (bf key) (Ef key) (Lf key) th) ks))"
proof -
  have "funct_loop (map (\<lambda>key. mk_mat K N (white (Lf key) G)) ks)
           (map (\<lambda>key. frob K (Tf key) (white (Lf key) (bf key)) (white (Lf key) (bf key))) ks)
           (map (\<lambda>key. mk_mat K F (fdot (Tf key) (white (Lf key) (bf key))
                                      (\<lambda>i j. Ef key ! i ! j))) ks)
           (Some (map (\<lambda>key. dot (transpose_m (Ef key)) (Ef key)) ks))
           (mk_mat N F th) [0..<length ks] 0
       = Inr (0 + sum_list (map (\<lambda>i. trial_value K N F (Tf (ks ! i)) G (bf (ks ! i)) (Ef (ks ! i))
                                         (Lf (ks ! i)) th) [0..<length ks]))"
  proof (rule funct_loop_sum, intro conjI)
    fix i assume "i \<in> set [0..<length ks]"
    then show i: "i < length ks" by simp
    then have t: "trial_facts K F self data (ks ! i) (bf (ks ! i)) (Ef (ks ! i)) (Lf (ks ! i)) (Tf (ks ! i))"
      by (simp add: tf)
    show "f_trial (mk_mat K N (white (Lf (ks ! i)) G)) (mk_mat N F th)
            (frob K (Tf (ks ! i)) (white (Lf (ks ! i)) (bf (ks ! i))) (white (Lf (ks ! i)) (bf (ks ! i))))
            (mk_mat K F (fdot (Tf (ks ! i)) (white (Lf (ks ! i)) (bf (ks ! i))) (\<lambda>ia j. Ef (ks ! i) ! ia ! j)))
            (dot (transpose_m (Ef (ks ! i))) (Ef (ks ! i)))
        = Inr (trial_value K N F (Tf (ks ! i)) G (bf (ks ! i)) (Ef (ks ! i)) (Lf (ks ! i)) th)"
      by (rule trial_f) (use t pos in \<open>simp_all add: trial_facts_def\<close>)
  qed
  then show ?thesis
    by (simp add: funct_def
          map_nth_keys [of "\<lambda>key. trial_value K N F (Tf key) G (bf key) (Ef key) (Lf key) th" ks])
qed

lemma explicit_value:
  fixes self :: "'k DstRF" and data :: "'k REG_Data"
  assumes tf: "\<And>key. key \<in> set (datakeys data) \<Longrightarrow>
      trial_facts K F self data key (bf key) (Ef key) (Lf key) (Tf key)"
    and G: "is_mat K N (lead_field self)"
    and pos: "0 < K" "0 < N" "0 < F"
  shows "explicit_objective self data (mk_mat N F th)
       = Inr (sum_list (map (\<lambda>key. trial_value K N F (Tf key) (lead_field self) (bf key) (Ef key)
                                     (Lf key) th) (datakeys data)))"
proof -
  have "explicit_loop self data (mk_mat N F th) (datakeys data) 0
      = Inr (0 + sum_list (map (\<lambda>key. trial_value K N F (Tf key) (lead_field self) (bf key) (Ef key)
                                     (Lf key) th) (datakeys data)))"
  proof (rule explicit_loop_sum)
    fix key assume "key \<in> set (datakeys data)"
    then have t: "trial_facts K F self data key (bf key) (Ef key) (Lf key) (Tf key)"
      by (rule tf)
    have "residual_energy (lead_field self) (bf key) (Ef key) (Lf key) (mk_mat N F th)
        = Inr (trial_value K N F (Tf key) (lead_field self) (bf key) (Ef key) (Lf key) th)"
      by (rule trial_explicit) (use t pos G in \<open>simp_all add: trial_facts_def\<close>)
    then show "explicit_trial self data (mk_mat N F th) key
        = Inr (trial_value K N F (Tf key) (lead_field self) (bf key) (Ef key) (Lf key) th)"
      using t by (simp add: explicit_trial_def trial_facts_def lookup_def)
  qed
  then show ?thesis by (simp add: explicit_objective_def)
qed

lemma grad_funct_value:
  fixes self :: "'k DstRF" and data :: "'k REG_Data"
  assumes tf: "\<And>key. key \<in> set ks \<Longrightarrow>
      trial_facts K F self data key (bf key) (Ef key) (Lf key) (Tf key)"
    and pos: "0 < K" "0 < N" "0 < F" and ne: "ks \<noteq> []"
  shows "grad_funct (map (\<lambda>key. mk_mat K N (white (Lf key) G)) ks)
           (map (\<lambda>key. mk_mat K F (fdot (Tf key) (white (Lf key) (bf key))
                                      (\<lambda>i j. Ef key ! i ! j))) ks)
           (Some (map (\<lambda>key. dot (transpose_m (Ef key)) (Ef key)) ks))
           (length ks) (mk_mat N F th)
       = Inr (mk_mat N F (\<lambda>i j. sum_list (map (\<lambda>key.
                 trial_grad K N F (Tf key) G (bf key) (Ef key) (Lf key) th i j) ks)))"
proof -
  let ?lt = "\<lambda>key. mk_mat K N (white (Lf key) G)"
  let ?be = "\<lambda>key. mk_mat K F (fdot (Tf key) (white (Lf key) (bf key)) (\<lambda>i j. Ef key ! i ! j))"
  let ?mm = "\<lambda>key. dot (transpose_m (Ef key)) (Ef key)"
  let ?gq = "\<lambda>key. trial_grad K N F (Tf key) G (bf key) (Ef key) (Lf key) th"
  from ne obtain k0 rest where ks: "ks = k0 # rest" by (cases ks) auto
  have g: "gradf_trial (?lt (ks ! i)) (mk_mat N F th) (?be (ks ! i)) (?mm (ks ! i))
         = Inr (mk_mat N F (?gq (ks ! i)))" if "i < length ks" for i
  proof -
    have t: "trial_facts K F self data (ks ! i) (bf (ks ! i)) (Ef (ks ! i)) (Lf (ks ! i)) (Tf (ks ! i))"
      using that by (simp add: tf)
    show ?thesis
      by (rule trial_gradf) (use t pos in \<open>simp_all add: trial_facts_def\<close>)
  qed
  have 0: "gradf_at (map ?lt ks) (map ?be ks) (Some (map ?mm ks)) (mk_mat N F th) 0
         = Inr (mk_mat N F (?gq (ks ! 0)))"
    using g [of 0] ne by (simp add: gradf_at_def nth_err_def attribute_def)
  have 1: "grad_loop (map ?lt ks) (map ?be ks) (Some (map ?mm ks)) (mk_mat N F th)
             [0..<length ks - 1] (mk_mat N F (?gq (ks ! 0)))
         = Inr (mk_mat N F (\<lambda>i j. ?gq (ks ! 0) i j
                  + sum_list (map (\<lambda>tr. ?gq (ks ! Suc tr) i j) [0..<length ks - 1])))"
  proof (rule grad_loop_sum, intro conjI)
    fix i assume "i \<in> set [0..<length ks - 1]"
    then show i: "Suc i < length ks" by simp
    show "gradf_trial (?lt (ks ! Suc i)) (mk_mat N F th) (?be (ks ! Suc i)) (?mm (ks ! Suc i))
        = Inr (mk_mat N F (?gq (ks ! Suc i)))"
      by (rule g [OF i])
  qed
  have 2: "?gq (ks ! 0) i j + sum_list (map (\<lambda>tr. ?gq (ks ! Suc tr) i j) [0..<length ks - 1])
         = sum_list (map (\<lambda>key. ?gq key i j) ks)" for i j
    using map_nth_keys [of "\<lambda>key. ?gq key i j" rest] by (simp add: ks)
  show ?thesis
    unfolding grad_funct_def 0 bind_err_simps 1 2 by (rule refl)
qed


lemma sum_list_quadratic:
  fixes a :: "'k \<Rightarrow> real"
  shows "sum_list (map (\<lambda>key. a key + t * g1 key + t * t * c key) ks)
       = sum_list (map a ks) + t * sum_list (map g1 ks) + t * t * sum_list (map c ks)"
  by (induction ks) (simp_all add: algebra_simps)

lemma quadratic_derivative:
  fixes a b c :: real
  shows "((\<lambda>t. a + t * b + t * t * c) has_real_derivative b) (at 0)"
  by (auto intro!: derivative_eq_intros)

text \<open>On the concrete trial, at \<open>th = 1\<close>: the residual is \<open>(2, 2)\<close>, whitened \<open>(1, 1)\<close>.\<close>

lemma ex_explicit_objective:
  "explicit_objective (ex_model [[0]]) ex_data [[1]] = Inr 1"
  by (simp add: explicit_objective_def explicit_trial_def residual_energy_def ex_model_def ex_data_def lookup_def
      cholesky_def solve_def array_defs ex_sqrts msum_def square_def)


section \<open>Lemmas on the source covariance update\<close>

text \<open>The products that broadcast a vector along the rows or along the columns.\<close>


lemma np_mul_row_mk:
  assumes "0 < r" "0 < n" "length v = n"
  shows "np_mul (mk_mat r n f) [v] = Inr (mk_mat r n (\<lambda>i j. f i j * v ! j))"
proof -
  have s: "nrows [v] = 1" "ncols [v] = n" by (simp_all add: nrows_def ncols_def assms)
  have "mk_mat r n (\<lambda>i j. bc_get (mk_mat r n f) i j * bc_get [v] i j)
      = mk_mat r n (\<lambda>i j. f i j * v ! j)"
  proof (rule mk_mat_cong)
    fix i j assume "i < r" "j < n"
    then show "bc_get (mk_mat r n f) i j * bc_get [v] i j = f i j * v ! j"
      using assms by (auto simp add: bc_get_def s)
  qed
  moreover have "bc_dim r 1 = Some r" "bc_dim n n = Some n"
    by (simp_all add: bc_dim_def)
  ultimately show ?thesis
    unfolding np_mul_def np_binop_def nrows_mk_mat ncols_mk_mat [OF assms(1)] s by simp
qed

lemma np_mul_col_mk:
  assumes "0 < r" "0 < n" "length v = r"
  shows "np_mul (mk_mat r n f) (map (\<lambda>a. [a]) v) = Inr (mk_mat r n (\<lambda>i j. f i j * v ! i))"
proof -
  have s: "nrows (map (\<lambda>a. [a]) v) = r" "ncols (map (\<lambda>a. [a]) v) = 1"
    using assms by (cases v; simp add: nrows_def ncols_def)+
  have "mk_mat r n (\<lambda>i j. bc_get (mk_mat r n f) i j * bc_get (map (\<lambda>a. [a]) v) i j)
      = mk_mat r n (\<lambda>i j. f i j * v ! i)"
  proof (rule mk_mat_cong)
    fix i j assume "i < r" "j < n"
    then show "bc_get (mk_mat r n f) i j * bc_get (map (\<lambda>a. [a]) v) i j = f i j * v ! i"
      using assms by (auto simp add: bc_get_def s)
  qed
  moreover have "bc_dim r r = Some r" "bc_dim n 1 = Some n"
    by (simp_all add: bc_dim_def)
  ultimately show ?thesis
    unfolding np_mul_def np_binop_def nrows_mk_mat ncols_mk_mat [OF assms(1)] s by simp
qed

lemma compute_gamma_i_mk:
  assumes e1: "linalg_eig ext z = (e0, V)" and e0: "length e0 = n" and V: "is_mat n n V"
    and x: "is_mat n c x" and pos: "0 < n" "0 < c"
    and e2: "linalg_eig ext (eig_arg ext z x) = (d0, U)" and d0: "length d0 = n"
    and U: "is_mat n n U"
  shows "eig_arg ext z x
       = mk_mat n n (\<lambda>i j. (\<Sum>t<c. (\<Sum>a<n. x ! a ! t * V ! a ! i) * (\<Sum>a<n. x ! a ! t * V ! a ! j))
                            * sqrt (clamp0 e0 ! j) * sqrt (clamp0 e0 ! i))"
    and "compute_gamma_i ext z x
       = Inr (mk_mat n n (\<lambda>i j. \<Sum>k<n.
                (\<Sum>l<n. V ! i ! l * myinv (map sqrt (clamp0 e0)) ! l * U ! l ! k)
                * sqrt (clamp0 d0 ! k)
                * (\<Sum>l<n. V ! j ! l * myinv (map sqrt (clamp0 e0)) ! l * U ! l ! k)))"
proof -
  let ?e = "map sqrt (clamp0 e0)"
  let ?temp = "\<lambda>t i. \<Sum>a<n. x ! a ! t * V ! a ! i"
  let ?temp2 = "\<lambda>i j. \<Sum>t<c. ?temp t i * ?temp t j"
  have le: "length (clamp0 e0) = n" "length (clamp0 d0) = n" "length ?e = n"
    "length (myinv ?e) = n" "length (map sqrt (clamp0 d0)) = n"
    by (simp_all add: clamp0_def myinv_def e0 d0)
  have xt: "transpose_m x = mk_mat c n (\<lambda>t a. x ! a ! t)" by (rule transpose_mk [OF x pos(1)])
  have Vm: "V = mk_mat n n (\<lambda>i j. V ! i ! j)" and Um: "U = mk_mat n n (\<lambda>i j. U ! i ! j)"
    by (simp_all add: mk_mat_eq [OF V] mk_mat_eq [OF U])
  have t: "dot (transpose_m x) V = mk_mat c n ?temp"
    unfolding xt by (subst Vm) (simp add: dot_mkmk [OF pos(1)] fdot_def [abs_def])
  have t2: "dot (transpose_m (mk_mat c n ?temp)) (mk_mat c n ?temp) = mk_mat n n ?temp2"
    by (simp add: transpose_mkmk [OF pos(2)] dot_mkmk [OF pos(2)] fdot_def [abs_def])
  have m2: "mk_mat n n (\<lambda>i j. mk_mat n n ?temp2 ! i ! j * ?e ! j * ?e ! i)
          = mk_mat n n (\<lambda>i j. ?temp2 i j * sqrt (clamp0 e0 ! j) * sqrt (clamp0 e0 ! i))"
    by (rule mk_mat_cong) (simp add: le)
  show a: "eig_arg ext z x
       = mk_mat n n (\<lambda>i j. ?temp2 i j * sqrt (clamp0 e0 ! j) * sqrt (clamp0 e0 ! i))"
    using pos by (simp add: eig_arg_def e1 t t2 m2)
  have m2': "mk_mat n n (\<lambda>i j. ?temp2 i j * ?e ! j * ?e ! i)
          = mk_mat n n (\<lambda>i j. ?temp2 i j * sqrt (clamp0 e0 ! j) * sqrt (clamp0 e0 ! i))"
    by (rule mk_mat_cong) (simp add: le)
  have 1: "np_dot (transpose_m x) V = Inr (mk_mat c n ?temp)"
    using t pos by (simp add: np_dot_def xt is_mat_nrows [OF V])
  have 2: "np_dot (transpose_m (mk_mat c n ?temp)) (mk_mat c n ?temp) = Inr (mk_mat n n ?temp2)"
    using t2 pos by (simp add: np_dot_def transpose_mkmk)
  have 3: "np_mul (mk_mat n n ?temp2) [?e] = Inr (mk_mat n n (\<lambda>i j. ?temp2 i j * ?e ! j))"
    by (rule np_mul_row_mk [OF pos(1) pos(1) le(3)])
  have 4: "np_mul (mk_mat n n (\<lambda>i j. ?temp2 i j * ?e ! j)) (map (\<lambda>a. [a]) ?e)
         = Inr (eig_arg ext z x)"
    unfolding a m2' [symmetric] by (rule np_mul_col_mk [OF pos(1) pos(1) le(3)])
  have 5: "np_mul V [myinv ?e] = Inr (mk_mat n n (\<lambda>i l. V ! i ! l * myinv ?e ! l))"
    by (subst Vm) (rule np_mul_row_mk [OF pos(1) pos(1) le(4)])
  let ?t3 = "\<lambda>i k. \<Sum>l<n. V ! i ! l * myinv ?e ! l * U ! l ! k"
  have 6: "np_dot (mk_mat n n (\<lambda>i l. V ! i ! l * myinv ?e ! l)) U = Inr (mk_mat n n ?t3)"
    by (subst Um) (simp add: np_dot_mkmk [OF pos(1) pos(1)] fdot_def [abs_def])
  have 7: "np_mul (mk_mat n n ?t3) [map sqrt (clamp0 d0)]
         = Inr (mk_mat n n (\<lambda>i k. ?t3 i k * map sqrt (clamp0 d0) ! k))"
    by (rule np_mul_row_mk [OF pos(1) pos(1) le(5)])
  have 8: "np_dot (mk_mat n n (\<lambda>i k. ?t3 i k * map sqrt (clamp0 d0) ! k)) (transpose_m (mk_mat n n ?t3))
         = Inr (mk_mat n n (\<lambda>i j. \<Sum>k<n. ?t3 i k * map sqrt (clamp0 d0) ! k * ?t3 j k))"
    by (simp add: transpose_mkmk [OF pos(1)] np_dot_mkmk [OF pos(1) pos(1)] fdot_def [abs_def])
  have 9: "mk_mat n n (\<lambda>i j. \<Sum>k<n. ?t3 i k * map sqrt (clamp0 d0) ! k * ?t3 j k)
         = mk_mat n n (\<lambda>i j. \<Sum>k<n. ?t3 i k * sqrt (clamp0 d0 ! k) * ?t3 j k)"
    by (rule mk_mat_cong) (simp add: le)
  show "compute_gamma_i ext z x = Inr (mk_mat n n (\<lambda>i j. \<Sum>k<n. ?t3 i k * sqrt (clamp0 d0 ! k) * ?t3 j k))"
    unfolding compute_gamma_i_def e1 Let_def prod.case 1 bind_err_simps 2 3 4 e2 5 6 7 8 9
    by (rule refl)
qed


text \<open>Square matrices as index functions.\<close>

lemma sq_fmat [simp]: "sq n (fmat n A)" by (simp add: sq_def fmat_def)

lemma sq_fid [simp]: "sq n (fid n)" by (auto simp: sq_def fid_def)

lemma sq_fdiag [simp]: "sq n (fdiag n v)" by (auto simp: sq_def fdiag_def)

lemma sq_ftr [simp]: "sq n a \<Longrightarrow> sq n (ftr a)" by (auto simp: sq_def ftr_def)

lemma sq_fdot_rows: "sq n a \<Longrightarrow> \<not> i < n \<Longrightarrow> fdot m a b i j = 0"
  by (simp add: sq_def fdot_def)

lemma sq_fdot_cols: "sq n b \<Longrightarrow> \<not> j < n \<Longrightarrow> fdot m a b i j = 0"
  by (simp add: sq_def fdot_def)

lemma sq_fdot [simp]: "sq n a \<Longrightarrow> sq n b \<Longrightarrow> sq n (fdot n a b)"
  unfolding sq_def [of n "fdot n a b"] using sq_fdot_rows sq_fdot_cols by blast

lemma fid_left [simp]: "sq n a \<Longrightarrow> fdot n (fid n) a = a"
proof (intro ext)
  fix i j assume a: "sq n a"
  show "fdot n (fid n) a i j = a i j"
  proof (cases "i < n")
    case True
    have "fdot n (fid n) a i j = (\<Sum>k<n. if i = k then a k j else 0)"
      unfolding fdot_def fid_def using True by (intro sum.cong refl) simp
    then show ?thesis using True by (simp add: sum.delta')
  next
    case False
    then show ?thesis using a by (simp add: fdot_def fid_def sq_def)
  qed
qed

lemma fid_right [simp]: "sq n a \<Longrightarrow> fdot n a (fid n) = a"
proof (intro ext)
  fix i j assume a: "sq n a"
  show "fdot n a (fid n) i j = a i j"
  proof (cases "j < n")
    case True
    have "fdot n a (fid n) i j = (\<Sum>k<n. if k = j then a i k else 0)"
      unfolding fdot_def fid_def by (intro sum.cong refl) simp
    then show ?thesis using True by (simp add: sum.delta)
  next
    case False
    have "fdot n a (fid n) i j = (\<Sum>k<n. 0)"
      unfolding fdot_def fid_def using False by (intro sum.cong refl) auto
    then show ?thesis using False a by (simp add: sq_def)
  qed
qed

lemma fid_left_assoc [simp]: "sq n a \<Longrightarrow> fdot n (fid n) (fdot n a b) = fdot n a b"
  using fdot_assoc_fun [of n n "fid n" a b, symmetric] by simp

lemma ftr_fdot: "ftr (fdot n a b) = fdot n (ftr b) (ftr a)"
  by (intro ext) (simp add: ftr_def fdot_def mult.commute)

lemma ftr_fdiag [simp]: "ftr (fdiag n v) = fdiag n v"
  by (intro ext) (auto simp: ftr_def fdiag_def)

lemma ftr_ftr [simp]: "ftr (ftr a) = a"
  by (intro ext) (simp add: ftr_def)

lemma fdiag_left: "fdot n (fdiag n u) a i j = (if i < n then u i * a i j else 0)"
proof (cases "i < n")
  case True
  have "fdot n (fdiag n u) a i j = (\<Sum>k<n. if i = k then u i * a k j else 0)"
    unfolding fdot_def fdiag_def using True by (intro sum.cong refl) simp
  then show ?thesis using True by (simp add: sum.delta')
next
  case False
  then show ?thesis by (simp add: fdot_def fdiag_def)
qed

lemma fdiag_right: "fdot n a (fdiag n u) i j = (if j < n then a i j * u j else 0)"
proof -
  have "fdot n a (fdiag n u) i j = (\<Sum>k<n. if k = j then a i k * u k else 0)"
    unfolding fdot_def fdiag_def by (intro sum.cong refl) simp
  then show ?thesis by (simp add: sum.delta)
qed

lemma fdiag_mult [simp]: "fdot n (fdiag n u) (fdiag n v) = fdiag n (\<lambda>k. u k * v k)"
  by (intro ext) (auto simp: fdiag_left fdiag_def)

lemma fdiag_mult_assoc [simp]:
  "fdot n (fdiag n u) (fdot n (fdiag n v) a) = fdot n (fdiag n (\<lambda>k. u k * v k)) a"
  using fdot_assoc_fun [of n n "fdiag n u" "fdiag n v" a, symmetric] by simp

lemma fdiag_cong: "(\<And>k. k < n \<Longrightarrow> u k = v k) \<Longrightarrow> fdiag n u = fdiag n v"
  by (intro ext) (auto simp: fdiag_def)

lemma fdiag_one: "(\<And>k. k < n \<Longrightarrow> u k = 1) \<Longrightarrow> fdiag n u = fid n"
  by (intro ext) (auto simp: fdiag_def fid_def)


text \<open>
  The defining equation, on index functions: \<open>V\<close>, \<open>e\<close> an orthonormal eigendecomposition of
  \<open>z\<close> with square roots \<open>s\<close> and their inverses \<open>si\<close>; \<open>U\<close>, \<open>d\<close> one of
  \<open>M = S V\<^sup>T xx V S\<close> with square roots \<open>dq\<close>.  With \<open>Q = V S\<^sup>-\<^sup>1 U\<close> the result is
  \<open>Q D\<^sup>1\<^sup>/\<^sup>2 Q\<^sup>T\<close>.
\<close>

lemma gamma_equation:
  fixes V U z xx M :: "nat \<Rightarrow> nat \<Rightarrow> real" and e s si d dq :: "nat \<Rightarrow> real"
  assumes sqs: "sq n V" "sq n U" "sq n z" "sq n xx"
    and V1: "fdot n (ftr V) V = fid n" and V2: "fdot n V (ftr V) = fid n"
    and U1: "fdot n (ftr U) U = fid n" and U2: "fdot n U (ftr U) = fid n"
    and Z: "fdot n z V = fdot n V (fdiag n e)"
    and M: "M = fdot n (fdiag n s) (fdot n (ftr V) (fdot n xx (fdot n V (fdiag n s))))"
    and MU: "fdot n M U = fdot n U (fdiag n d)"
    and s: "\<And>k. k < n \<Longrightarrow> s k * s k = e k" "\<And>k. k < n \<Longrightarrow> si k * s k = 1"
    and dq: "\<And>k. k < n \<Longrightarrow> dq k * dq k = d k"
    and Q: "Q = fdot n V (fdot n (fdiag n si) U)"
    and G: "G = fdot n Q (fdot n (fdiag n dq) (ftr Q))"
  shows "fdot n G (fdot n z G) = xx"
proof -
  note assoc = fdot_assoc_fun [of n n]
  have sqM: "sq n M" unfolding M using sqs by simp
  have sqQ: "sq n Q" unfolding Q using sqs by simp
  have Qt: "ftr Q = fdot n (ftr U) (fdot n (fdiag n si) (ftr V))"
    unfolding Q by (simp add: ftr_fdot assoc)
  have V1': "fdot n (ftr V) (fdot n V a) = fdot n (fid n) a" for a
    using assoc [of "ftr V" V a] by (simp add: V1)
  have V2': "fdot n V (fdot n (ftr V) a) = fdot n (fid n) a" for a
    using assoc [of V "ftr V" a] by (simp add: V2)
  have U1': "fdot n (ftr U) (fdot n U a) = fdot n (fid n) a" for a
    using assoc [of "ftr U" U a] by (simp add: U1)
  have U2': "fdot n U (fdot n (ftr U) a) = fdot n (fid n) a" for a
    using assoc [of U "ftr U" a] by (simp add: U2)
  have Z': "fdot n z (fdot n V a) = fdot n V (fdot n (fdiag n e) a)" for a
    using assoc [of z V a] assoc [of V "fdiag n e" a] by (simp add: Z)
  have ses: "fdiag n (\<lambda>k. si k * (e k * si k)) = fid n"
  proof (rule fdiag_one)
    fix k assume k: "k < n"
    have "si k * (e k * si k) = (si k * s k) * (si k * s k)"
      by (simp add: s(1) [OF k, symmetric] mult_ac)
    then show "si k * (e k * si k) = 1" by (simp add: s(2) [OF k])
  qed
  have s2: "s k * si k = 1" if "k < n" for k
    using s(2) [OF that] by (simp add: mult.commute)
  have ss: "fdiag n (\<lambda>k. si k * s k) = fid n" "fdiag n (\<lambda>k. s k * si k) = fid n"
    by (rule fdiag_one, simp add: s(2) s2)+
  have dd: "fdiag n (\<lambda>k. dq k * dq k) = fdiag n d"
    by (rule fdiag_cong) (simp add: dq)
  text \<open>\<open>Q\<^sup>T z Q = 1\<close>\<close>
  have "fdot n (ftr Q) (fdot n z Q)
      = fdot n (ftr U) (fdot n (fdiag n si) (fdot n (ftr V)
          (fdot n z (fdot n V (fdot n (fdiag n si) U)))))"
    unfolding Qt unfolding Q by (simp add: assoc)
  also have "\<dots> = fdot n (ftr U) (fdot n (fdiag n (\<lambda>k. si k * (e k * si k))) U)"
    using sqs by (simp add: Z' V1')
  also have "\<dots> = fid n"
    unfolding ses using sqs by (simp add: U1)
  finally have QzQ: "fdot n (ftr Q) (fdot n z Q) = fid n" .
  have QzQ': "fdot n (ftr Q) (fdot n z (fdot n Q a)) = fdot n (fid n) a" for a
    using assoc [of "ftr Q" "fdot n z Q" a] assoc [of z Q a] by (simp add: QzQ)
  text \<open>\<open>G z G = Q D Q\<^sup>T\<close>\<close>
  have "fdot n G (fdot n z G)
      = fdot n Q (fdot n (fdiag n dq) (fdot n (ftr Q) (fdot n z (fdot n Q
          (fdot n (fdiag n dq) (ftr Q))))))"
    unfolding G by (simp add: assoc)
  also have "\<dots> = fdot n Q (fdot n (fdiag n d) (ftr Q))"
    unfolding QzQ' using sqQ by (simp add: dd)
  text \<open>\<open>Q D Q\<^sup>T = P M P\<^sup>T\<close> with \<open>P = V S\<^sup>-\<^sup>1\<close>\<close>
  also have "\<dots> = fdot n V (fdot n (fdiag n si) (fdot n (fdot n U (fdiag n d))
                       (fdot n (ftr U) (fdot n (fdiag n si) (ftr V)))))"
    unfolding Qt unfolding Q by (simp add: assoc)
  also have "\<dots> = fdot n V (fdot n (fdiag n si) (fdot n M
                       (fdot n U (fdot n (ftr U) (fdot n (fdiag n si) (ftr V))))))"
    unfolding MU [symmetric] by (simp add: assoc)
  also have "\<dots> = fdot n V (fdot n (fdiag n si) (fdot n M (fdot n (fdiag n si) (ftr V))))"
    unfolding U2' by simp
  also have "\<dots> = fdot n V (fdot n (fdiag n (\<lambda>k. si k * s k)) (fdot n (ftr V)
                       (fdot n xx (fdot n V (fdot n (fdiag n (\<lambda>k. s k * si k)) (ftr V))))))"
    unfolding M by (simp add: assoc)
  also have "\<dots> = fdot n V (fdot n (ftr V) (fdot n xx (fdot n V (ftr V))))"
    unfolding ss using sqs by simp
  also have "\<dots> = xx"
    unfolding V2' V2 using sqs by simp
  finally show ?thesis .
qed


text \<open>From arrays to index functions.\<close>

lemma fmat_mk: "fmat n (mk_mat n n f) = (\<lambda>i j. if i < n \<and> j < n then f i j else 0)"
  by (intro ext) (simp add: fmat_def)

lemma mk_fmat: "is_mat n n A \<Longrightarrow> mk_mat n n (fmat n A) = A"
  by (rule mat_eqI [of n n]) (simp_all add: fmat_def)

lemma mk_mat_sq_cong:
  "(\<And>i j. i < n \<Longrightarrow> j < n \<Longrightarrow> a i j = b i j) \<Longrightarrow> mk_mat n n a = mk_mat n n b"
  by (rule mk_mat_cong)

lemma fmat_dot:
  assumes "is_mat n n A" "is_mat n n B" "0 < n"
  shows "fmat n (dot A B) = fdot n (fmat n A) (fmat n B)"
proof (intro ext)
  fix i j
  show "fmat n (dot A B) i j = fdot n (fmat n A) (fmat n B) i j"
  proof (cases "i < n \<and> j < n")
    case True
    then show ?thesis
      by (simp add: dot_mk [OF assms] fmat_def fdot_def)
  next
    case False
    then have "fdot n (fmat n A) (fmat n B) i j = 0"
      using sq_fdot_rows [of n "fmat n A" i] sq_fdot_cols [of n "fmat n B" j] by auto
    then show ?thesis using False by (auto simp: fmat_def)
  qed
qed

lemma fmat_transpose:
  assumes "is_mat n n A" "0 < n"
  shows "fmat n (transpose_m A) = ftr (fmat n A)"
  by (intro ext) (auto simp: transpose_mk [OF assms] fmat_def ftr_def)

lemma fmat_eye: "fmat n (eye n) = fid n"
  by (intro ext) (auto simp: eye_def fmat_def fid_def)

lemma orthonormal_eigD:
  assumes o: "orthonormal_eig A (e, V)" and A: "is_mat n n A" and n: "0 < n"
  shows "length e = n" "is_mat n n V"
    "fdot n (ftr (fmat n V)) (fmat n V) = fid n"
    "fdot n (fmat n V) (ftr (fmat n V)) = fid n"
    "fdot n (fmat n A) (fmat n V) = fdot n (fmat n V) (fdiag n (\<lambda>k. e ! k))"
proof -
  have r: "nrows A = n" by (rule is_mat_nrows [OF A])
  from o show e: "length e = n" and V: "is_mat n n V"
    by (simp_all add: orthonormal_eig_def r)
  have Vt: "is_mat n n (transpose_m V)" by (simp add: transpose_mk [OF V n])
  from o have 1: "dot (transpose_m V) V = eye n" and 2: "dot V (transpose_m V) = eye n"
    and 3: "dot A V = mk_mat n n (\<lambda>i k. V ! i ! k * e ! k)"
    by (simp_all add: orthonormal_eig_def r)
  show "fdot n (ftr (fmat n V)) (fmat n V) = fid n"
    using arg_cong [OF 1, of "fmat n"]
    by (simp add: fmat_dot [OF Vt V n] fmat_transpose [OF V n] fmat_eye)
  show "fdot n (fmat n V) (ftr (fmat n V)) = fid n"
    using arg_cong [OF 2, of "fmat n"]
    by (simp add: fmat_dot [OF V Vt n] fmat_transpose [OF V n] fmat_eye)
  have "fmat n (mk_mat n n (\<lambda>i k. V ! i ! k * e ! k)) = fdot n (fmat n V) (fdiag n (\<lambda>k. e ! k))"
    by (intro ext) (auto simp: fmat_mk fdiag_right fmat_def)
  then show "fdot n (fmat n A) (fmat n V) = fdot n (fmat n V) (fdiag n (\<lambda>k. e ! k))"
    using arg_cong [OF 3, of "fmat n"] by (simp add: fmat_dot [OF A V n])
qed

text \<open>A product \<open>T diag(q) T\<^sup>T\<close> with \<open>q \<ge> 0\<close> is symmetric and positive semi-definite.\<close>

lemma symmetric_mk:
  assumes "\<And>i j. i < n \<Longrightarrow> j < n \<Longrightarrow> f i j = f j i"
  shows "symmetric (mk_mat n n f)"
  using assms by (simp add: symmetric_def list_all_iff)

lemma congruence_quad_form:
  fixes t :: "nat \<Rightarrow> nat \<Rightarrow> real"
  shows "(\<Sum>i<n. \<Sum>j<n. y i * (\<Sum>k<m. t i k * q k * t j k) * y j)
       = (\<Sum>k<m. q k * ((\<Sum>i<n. y i * t i k) * (\<Sum>i<n. y i * t i k)))"
proof -
  have "(\<Sum>i<n. \<Sum>j<n. y i * (\<Sum>k<m. t i k * q k * t j k) * y j)
      = (\<Sum>i<n. \<Sum>j<n. \<Sum>k<m. q k * ((y i * t i k) * (y j * t j k)))"
    by (simp add: sum_distrib_left sum_distrib_right mult_ac)
  also have "\<dots> = (\<Sum>i<n. \<Sum>k<m. \<Sum>j<n. q k * ((y i * t i k) * (y j * t j k)))"
    by (rule sum.cong [OF refl]) (rule sum.swap)
  also have "\<dots> = (\<Sum>k<m. \<Sum>i<n. \<Sum>j<n. q k * ((y i * t i k) * (y j * t j k)))"
    by (rule sum.swap)
  also have "\<dots> = (\<Sum>k<m. q k * (\<Sum>i<n. \<Sum>j<n. (y i * t i k) * (y j * t j k)))"
    by (simp add: sum_distrib_left)
  also have "\<dots> = (\<Sum>k<m. q k * ((\<Sum>i<n. y i * t i k) * (\<Sum>i<n. y i * t i k)))"
    by (simp only: sum_product)
  finally show ?thesis .
qed

lemma congruence_pos_semidef:
  assumes "\<And>k. k < n \<Longrightarrow> 0 \<le> q k"
  shows "pos_semidef (mk_mat n n (\<lambda>i j. \<Sum>k<n. t i k * q k * t j k))"
  unfolding pos_semidef_def
proof (intro allI impI)
  fix y :: vec assume "length y = nrows (mk_mat n n (\<lambda>i j. \<Sum>k<n. t i k * q k * t j k))"
  then have y: "length y = n" by simp
  have "quad_form (mk_mat n n (\<lambda>i j. \<Sum>k<n. t i k * q k * t j k)) y
      = (\<Sum>i<n. \<Sum>j<n. y ! i * (\<Sum>k<n. t i k * q k * t j k) * y ! j)"
    by (simp add: quad_form_eq [OF y])
  also have "\<dots> = (\<Sum>k<n. q k * ((\<Sum>i<n. y ! i * t i k) * (\<Sum>i<n. y ! i * t i k)))"
    by (rule congruence_quad_form)
  also have "0 \<le> \<dots>"
  proof (rule sum_nonneg)
    fix k assume "k \<in> {..<n}"
    then have "0 \<le> q k" by (simp add: assms)
    then show "0 \<le> q k * ((\<Sum>i<n. y ! i * t i k) * (\<Sum>i<n. y ! i * t i k))"
      by (rule mult_nonneg_nonneg) (rule zero_le_square)
  qed
  finally show "0 \<le> quad_form (mk_mat n n (\<lambda>i j. \<Sum>k<n. t i k * q k * t j k)) y" .
qed


lemma sq_eqI:
  assumes "sq n a" "sq n b" "\<And>i j. i < n \<Longrightarrow> j < n \<Longrightarrow> a i j = b i j"
  shows "a = b"
proof (intro ext)
  fix i j show "a i j = b i j"
    using assms by (cases "i < n \<and> j < n") (auto simp: sq_def)
qed

lemma eig_arg_mk:
  assumes e1: "linalg_eig ext z = (e0, V)" and e0: "length e0 = n" and V: "is_mat n n V"
    and x: "is_mat n c x" and pos: "0 < n" "0 < c"
  shows "eig_arg ext z x
       = mk_mat n n (\<lambda>i j. (\<Sum>t<c. (\<Sum>a<n. x ! a ! t * V ! a ! i) * (\<Sum>a<n. x ! a ! t * V ! a ! j))
                            * sqrt (clamp0 e0 ! j) * sqrt (clamp0 e0 ! i))"
proof -
  let ?e = "map sqrt (clamp0 e0)"
  let ?temp = "\<lambda>t i. \<Sum>a<n. x ! a ! t * V ! a ! i"
  let ?temp2 = "\<lambda>i j. \<Sum>t<c. ?temp t i * ?temp t j"
  have le: "length (clamp0 e0) = n" by (simp add: clamp0_def e0)
  have xt: "transpose_m x = mk_mat c n (\<lambda>t a. x ! a ! t)" by (rule transpose_mk [OF x pos(1)])
  have Vm: "V = mk_mat n n (\<lambda>i j. V ! i ! j)" by (simp add: mk_mat_eq [OF V])
  have t: "dot (transpose_m x) V = mk_mat c n ?temp"
    unfolding xt by (subst Vm) (simp add: dot_mkmk [OF pos(1)] fdot_def [abs_def])
  have t2: "dot (transpose_m (mk_mat c n ?temp)) (mk_mat c n ?temp) = mk_mat n n ?temp2"
    by (simp add: transpose_mkmk [OF pos(2)] dot_mkmk [OF pos(2)] fdot_def [abs_def])
  have m2: "mk_mat n n (\<lambda>i j. mk_mat n n ?temp2 ! i ! j * ?e ! j * ?e ! i)
          = mk_mat n n (\<lambda>i j. ?temp2 i j * sqrt (clamp0 e0 ! j) * sqrt (clamp0 e0 ! i))"
    by (rule mk_mat_cong) (simp add: le)
  show ?thesis
    using pos by (simp add: eig_arg_def e1 t t2 m2)
qed

text \<open>The matrix of the second decomposition is \<open>S V\<^sup>T (x x\<^sup>T) V S\<close>.\<close>

lemma gram_conjugate:
  fixes x v :: "nat \<Rightarrow> nat \<Rightarrow> real"
  shows "(\<Sum>t<c. (\<Sum>a<n. x a t * v a i) * (\<Sum>b<n. x b t * v b j))
       = (\<Sum>a<n. v a i * (\<Sum>b<n. (\<Sum>t<c. x a t * x b t) * v b j))"
proof -
  have "(\<Sum>t<c. (\<Sum>a<n. x a t * v a i) * (\<Sum>b<n. x b t * v b j))
      = (\<Sum>t<c. \<Sum>a<n. \<Sum>b<n. v a i * ((x a t * x b t) * v b j))"
    by (simp add: sum_product mult_ac)
  also have "\<dots> = (\<Sum>a<n. \<Sum>t<c. \<Sum>b<n. v a i * ((x a t * x b t) * v b j))"
    by (rule sum.swap)
  also have "\<dots> = (\<Sum>a<n. \<Sum>b<n. \<Sum>t<c. v a i * ((x a t * x b t) * v b j))"
    by (rule sum.cong [OF refl]) (rule sum.swap)
  also have "\<dots> = (\<Sum>a<n. v a i * (\<Sum>b<n. (\<Sum>t<c. x a t * x b t) * v b j))"
    by (simp add: sum_distrib_left sum_distrib_right)
  finally show ?thesis .
qed

lemma eig_arg_factored:
  assumes e1: "linalg_eig ext z = (e0, V)" and e0: "length e0 = n" and V: "is_mat n n V"
    and x: "is_mat n c x" and pos: "0 < n" "0 < c"
  shows "fmat n (eig_arg ext z x)
       = fdot n (fdiag n (\<lambda>k. sqrt (clamp0 e0 ! k)))
           (fdot n (ftr (fmat n V))
              (fdot n (fmat n (dot x (transpose_m x)))
                 (fdot n (fmat n V) (fdiag n (\<lambda>k. sqrt (clamp0 e0 ! k))))))"
proof (rule sq_eqI [of n])
  show "sq n (fmat n (eig_arg ext z x))" by simp
  show "sq n (fdot n (fdiag n (\<lambda>k. sqrt (clamp0 e0 ! k)))
           (fdot n (ftr (fmat n V))
              (fdot n (fmat n (dot x (transpose_m x)))
                 (fdot n (fmat n V) (fdiag n (\<lambda>k. sqrt (clamp0 e0 ! k)))))))"
    by simp
  fix i j assume i: "i < n" and j: "j < n"
  have "dot x (transpose_m x) = dot (mk_mat n c (\<lambda>a t. x ! a ! t)) (mk_mat c n (\<lambda>t a. x ! a ! t))"
    by (simp add: transpose_mk [OF x pos(1)] mk_mat_eq [OF x])
  then have xx: "dot x (transpose_m x) = mk_mat n n (\<lambda>a b. \<Sum>t<c. x ! a ! t * x ! b ! t)"
    by (simp add: dot_mkmk [OF pos(2)] fdot_def [abs_def])
  let ?s = "\<lambda>k. sqrt (clamp0 e0 ! k)"
  let ?xx = "\<lambda>a b. \<Sum>t<c. x ! a ! t * x ! b ! t"
  have a: "fdot n (fmat n V) (fdiag n ?s) b j = V ! b ! j * ?s j" if "b < n" for b
    using that j by (simp add: fdiag_right fmat_def)
  have b: "fdot n (fmat n (dot x (transpose_m x))) (fdot n (fmat n V) (fdiag n ?s)) a j
         = (\<Sum>b<n. ?xx a b * V ! b ! j) * ?s j" if "a < n" for a
  proof -
    have "fdot n (fmat n (dot x (transpose_m x))) (fdot n (fmat n V) (fdiag n ?s)) a j
        = (\<Sum>b<n. ?xx a b * (V ! b ! j * ?s j))"
      unfolding fdot_def [of n "fmat n (dot x (transpose_m x))"]
      by (rule sum.cong [OF refl]) (use that in \<open>simp add: a fmat_def xx\<close>)
    then show ?thesis by (simp add: sum_distrib_right mult.assoc)
  qed
  have "fdot n (ftr (fmat n V))
          (fdot n (fmat n (dot x (transpose_m x))) (fdot n (fmat n V) (fdiag n ?s))) i j
      = (\<Sum>a<n. V ! a ! i * ((\<Sum>b<n. ?xx a b * V ! b ! j) * ?s j))"
    unfolding fdot_def [of n "ftr (fmat n V)"]
    by (rule sum.cong [OF refl]) (use i in \<open>simp add: b ftr_def fmat_def\<close>)
  then have "fdot n (ftr (fmat n V))
          (fdot n (fmat n (dot x (transpose_m x))) (fdot n (fmat n V) (fdiag n ?s))) i j
      = (\<Sum>a<n. V ! a ! i * (\<Sum>b<n. ?xx a b * V ! b ! j)) * ?s j"
    by (simp add: sum_distrib_right mult.assoc)
  then show "fmat n (eig_arg ext z x) i j
      = fdot n (fdiag n (\<lambda>k. sqrt (clamp0 e0 ! k)))
           (fdot n (ftr (fmat n V))
              (fdot n (fmat n (dot x (transpose_m x)))
                 (fdot n (fmat n V) (fdiag n (\<lambda>k. sqrt (clamp0 e0 ! k)))))) i j"
    using i j gram_conjugate [where c = c and n = n and x = "\<lambda>a t. x ! a ! t" and v = "\<lambda>a i. V ! a ! i"
        and i = i and j = j]
    by (simp add: fdiag_left eig_arg_mk [OF assms] fmat_def)
qed


lemma fdot_fmat:
  "i < n \<Longrightarrow> j < n \<Longrightarrow> fdot n (fmat n A) (fmat n B) i j = (\<Sum>k<n. A ! i ! k * B ! k ! j)"
  unfolding fdot_def by (rule sum.cong [OF refl]) (simp add: fmat_def)

lemma fdot_ftr_fmat:
  "i < n \<Longrightarrow> j < n \<Longrightarrow> fdot n (ftr (fmat n A)) (fmat n B) i j = (\<Sum>k<n. A ! k ! i * B ! k ! j)"
  unfolding fdot_def by (rule sum.cong [OF refl]) (simp add: fmat_def ftr_def)

lemma unit_column:
  assumes V1: "fdot n (ftr (fmat n V)) (fmat n V) = fid n" and k: "k < n"
  shows "(\<Sum>i<n. V ! i ! k * V ! i ! k) = 1"
  using fun_cong [OF fun_cong [OF V1], of k k] k by (simp add: fdot_ftr_fmat fid_def)

lemma eigen_row:
  assumes Z: "fdot n (fmat n A) (fmat n V) = fdot n (fmat n V) (fdiag n (\<lambda>k. e ! k))"
    and "i < n" "k < n"
  shows "(\<Sum>j<n. A ! i ! j * V ! j ! k) = V ! i ! k * e ! k"
  using fun_cong [OF fun_cong [OF Z], of i k] assms(2,3)
  by (simp add: fdot_fmat fdiag_right fmat_def)

lemma eigenvalue_quad_form:
  assumes V1: "fdot n (ftr (fmat n V)) (fmat n V) = fid n"
    and Z: "fdot n (fmat n A) (fmat n V) = fdot n (fmat n V) (fdiag n (\<lambda>k. e ! k))"
    and k: "k < n"
  shows "(\<Sum>i<n. \<Sum>j<n. V ! i ! k * A ! i ! j * V ! j ! k) = e ! k"
proof -
  have "(\<Sum>i<n. \<Sum>j<n. V ! i ! k * A ! i ! j * V ! j ! k)
      = (\<Sum>i<n. V ! i ! k * (\<Sum>j<n. A ! i ! j * V ! j ! k))"
    by (simp add: sum_distrib_left mult.assoc)
  also have "\<dots> = (\<Sum>i<n. V ! i ! k * (V ! i ! k * e ! k))"
    by (rule sum.cong [OF refl]) (simp add: eigen_row [OF Z _ k])
  also have "\<dots> = (\<Sum>i<n. V ! i ! k * V ! i ! k) * e ! k"
    by (simp add: sum_distrib_right mult.assoc)
  finally show ?thesis by (simp add: unit_column [OF V1 k])
qed

text \<open>The eigenvalues of a positive definite matrix are positive.\<close>

lemma eigenvalues_pos:
  assumes V1: "fdot n (ftr (fmat n V)) (fmat n V) = fid n"
    and Z: "fdot n (fmat n A) (fmat n V) = fdot n (fmat n V) (fdiag n (\<lambda>k. e ! k))"
    and A: "nrows A = n" and pd: "pos_def A" and k: "k < n"
  shows "0 < e ! k"
proof -
  define y where "y = map (\<lambda>i. V ! i ! k) [0..<n]"
  have len: "length y = n" by (simp add: y_def)
  have nth: "y ! i = V ! i ! k" if "i < n" for i using that by (simp add: y_def)
  have "\<exists>i<n. y ! i \<noteq> 0"
  proof (rule ccontr)
    assume "\<not> (\<exists>i<n. y ! i \<noteq> 0)"
    then have "(\<Sum>i<n. V ! i ! k * V ! i ! k) = (\<Sum>i<n. 0)"
      by (intro sum.cong refl) (simp add: nth [symmetric])
    then show False using unit_column [OF V1 k] by simp
  qed
  then have "0 < quad_form A y"
    using pd len by (simp add: pos_def_def A)
  also have "quad_form A y = (\<Sum>i<n. \<Sum>j<n. V ! i ! k * A ! i ! j * V ! j ! k)"
    unfolding quad_form_eq [OF len] by (intro sum.cong refl) (simp add: nth)
  finally show ?thesis by (simp add: eigenvalue_quad_form [OF V1 Z k])
qed

text \<open>The eigenvalues of a Gram matrix are not negative.\<close>

lemma eigenvalues_gram_nonneg:
  fixes y :: "nat \<Rightarrow> nat \<Rightarrow> real"
  assumes U1: "fdot n (ftr (fmat n U)) (fmat n U) = fid n"
    and MU: "fdot n (fmat n M) (fmat n U) = fdot n (fmat n U) (fdiag n (\<lambda>k. d ! k))"
    and M: "\<And>i j. i < n \<Longrightarrow> j < n \<Longrightarrow> M ! i ! j = (\<Sum>t<c. y i t * y j t)"
    and k: "k < n"
  shows "0 \<le> d ! k"
proof -
  have "d ! k = (\<Sum>i<n. \<Sum>j<n. U ! i ! k * M ! i ! j * U ! j ! k)"
    by (rule eigenvalue_quad_form [OF U1 MU k, symmetric])
  also have "\<dots> = (\<Sum>i<n. \<Sum>j<n. U ! i ! k * (\<Sum>t<c. y i t * 1 * y j t) * U ! j ! k)"
    by (intro sum.cong refl) (simp add: M)
  also have "\<dots> = (\<Sum>t<c. 1 * ((\<Sum>i<n. U ! i ! k * y i t) * (\<Sum>i<n. U ! i ! k * y i t)))"
    by (rule congruence_quad_form)
  also have "0 \<le> \<dots>"
    by (intro sum_nonneg) simp
  finally show ?thesis .
qed


text \<open>
  A concrete input: \<open>z\<close> the identity of order 3 and \<open>x = diag(1, 2, 3)\<close>, with the
  decomposition of diagonal matrices.
\<close>

lemma ex_eig_diag:
  "orthonormal_eig [[a, 0, 0], [0, b, 0], [0, 0, c]]
     (linalg_eig ex_ext [[a, 0, 0], [0, b, 0], [0, 0, c]])"
  by (simp add: orthonormal_eig_def ex_ext_def eye_def array_defs is_mat_def upt_rec [of _ "numeral _"]
       upt_rec [of _ "Suc _"])

lemma ex_eig_arg:
  "eig_arg ex_ext [[1, 0, 0], [0, 1, 0], [0, 0, 1]] [[1, 0, 0], [0, 2, 0], [0, 0, 3]]
     = [[1, 0, 0], [0, 4, 0], [0, 0, 9]]"
  by (simp add: eig_arg_def ex_ext_def eye_def clamp0_def array_defs upt_rec [of _ "numeral _"]
       upt_rec [of _ "Suc _"])

lemma ex_pos_def: "pos_def [[1, 0, 0], [0, 1, 0], [0, 0, 1]]"
  unfolding pos_def_def
proof (intro allI impI)
  fix y :: vec
  assume "length y = nrows [[1, 0, 0], [0, 1, 0], [0, 0, 1]] \<and>
          (\<exists>i<nrows [[1, 0, 0], [0, 1, 0], [0, 0, 1]]. y ! i \<noteq> 0)"
  then have len: "length y = 3" and nz: "\<exists>i<3. y ! i \<noteq> 0"
    by (simp_all add: nrows_def eval_nat_numeral)
  have q: "quad_form [[1, 0, 0], [0, 1, 0], [0, 0, 1]] y
      = y ! 0 * y ! 0 + y ! 1 * y ! 1 + y ! 2 * y ! 2"
    by (simp add: quad_form_eq [OF len] lessThan_Suc eval_nat_numeral)
  from nz have "y ! 0 \<noteq> 0 \<or> y ! 1 \<noteq> 0 \<or> y ! 2 \<noteq> 0"
    by (auto simp: less_Suc_eq eval_nat_numeral)
  then have "0 < y ! 0 * y ! 0 + y ! 1 * y ! 1 + y ! 2 * y ! 2"
    by (metis add_pos_nonneg add_nonneg_pos zero_le_square not_real_square_gt_zero add_nonneg_nonneg)
  then show "0 < quad_form [[1, 0, 0], [0, 1, 0], [0, 0, 1]] y" by (simp add: q)
qed

section \<open>Properties of the soft threshold\<close>

lemma shrink_entry_zero: "sgn a * max (\<bar>a\<bar> - 0) 0 = (a::real)"
  by (simp add: sgn_real_def)

lemma shrink_entry_contracts:
  "0 \<le> thr \<Longrightarrow> \<bar>sgn a * max (\<bar>a\<bar> - thr) 0\<bar> \<le> \<bar>a::real\<bar>"
  by (simp add: sgn_real_def max_def abs_mult)

lemma shrink_zero: "shrink x 0 = x"
proof -
  have "map (\<lambda>a. sgn a * max (\<bar>a\<bar> - 0) 0) r = r" for r :: vec
    by (rule map_idI) (rule shrink_entry_zero)
  then show ?thesis
    unfolding shrink_def by (simp add: map_idI)
qed

text \<open>
  C8.  For a threshold \<open>thr \<ge> 0\<close>: thresholding at 0 is the identity, thresholding at
  \<open>thr\<close> keeps the shape of \<open>x\<close> and never increases the absolute value of an entry, and
  thresholding the result once more at 0 changes nothing.
\<close>

theorem shrink_contraction:
  assumes "0 \<le> thr"
  shows "shrink x 0 = x
    \<and> length (shrink x thr) = length x
    \<and> (\<forall>i<length x. length (shrink x thr ! i) = length (x ! i)
          \<and> (\<forall>j<length (x ! i). \<bar>shrink x thr ! i ! j\<bar> \<le> \<bar>x ! i ! j\<bar>))
    \<and> shrink (shrink x thr) 0 = shrink x thr"
  using assms by (simp add: shrink_zero) (simp add: shrink_def shrink_entry_contracts)

theorem shrink_contraction_witness:
  "shrink [[3, - 1], [0, 1 / 2]] 0 = [[3, - 1], [0, 1 / 2]]
    \<and> shrink [[3, - 1], [0, 1 / 2]] 1 = [[2, 0], [0, 0]]
    \<and> shrink (shrink [[3, - 1], [0, 1 / 2]] 1) 0 = shrink [[3, - 1], [0, 1 / 2]] 1"
  using shrink_contraction [of 1 "[[3, - 1], [0, 1 / 2]]"]
  by (simp add: shrink_def)


section \<open>Loading trials (C5)\<close>




section \<open>Time slices (C7)\<close>




section \<open>The estimation-stability metric (C9)\<close>

lemma ex_signal: "signal_of (ex_model [[c]]) ex_data [''a''] [] = Inr [c, c * 2]"
  by (simp add: ex_model_def ex_data_def attribute_def lookup_def np_dot_def dot_def
      transpose_m_def mk_mat_def nrows_def ncols_def)





section \<open>Construction of the forward model (C6)\<close>




section \<open>The data covariance during the Champagne iterations (C3)\<close>



section \<open>Unsupported orientation dimensions (C4)\<close>

text \<open>
  C4 does not hold of the code.  The last branch of the per-source update builds the
  exception and never raises it, so for an orientation dimension other than 1 and 3 the
  update returns normally with the source covariance block unchanged.  (The shipped
  orientation table only holds 1 and 3, and an orientation that is not in it raises
  \<^verbatim>\<open>KeyError\<close> at the lookup, before the loop.)
\<close>

lemma update_gamma_other_dc:
  "dc \<noteq> 1 \<Longrightarrow> dc \<noteq> 3 \<Longrightarrow> update_gamma ext dc uo z x gamma_i = Inr gamma_i"
  by (simp add: update_gamma_def)

lemma orientation_table_values:
  "lookup orientation_table ori = Inr dc \<Longrightarrow> dc = 1 \<or> dc = 3"
  by (auto simp: lookup_def orientation_table_def split: if_splits)


section \<open>The first outer iteration (C10)\<close>

text \<open>
  C10.  \<^verbatim>\<open>_set_mu\<close> initialises \<open>theta\<close> to a zero matrix.  The relative change from a zero
  matrix, when it is computed at all, is \<open>+\<infinity>\<close> or NaN (\<open>+\<infinity>\<close> for a new iterate of the
  same shape with a nonzero entry, NaN for the zero matrix), so it is never below the
  tolerance.  Hence an outer iteration that starts from a zero matrix has no exit at the
  tolerance check: after the objective is built, the solver has returned and the
  relative change is recorded, the Champagne update \<^verbatim>\<open>_solve\<close> is run, and the remaining
  iterations follow it.
\<close>

theorem fit_first_iteration_never_stops:
  "(\<forall>th1 v. residual (zeros r c) th1 = Inr v \<longrightarrow> (v = PInf \<or> v = NaN) \<and> \<not> float_less v tol)
   \<and> (\<forall>th1. is_mat r c th1 \<longrightarrow>
         residual (zeros r c) th1 = Inr (if th1 = zeros r c then NaN else PInf))
   \<and> (\<forall>(self :: 'k DstRF) mu1 data self1 data1. set_mu self mu1 data = Inr (self1, data1) \<longrightarrow>
         (\<exists>dc. theta self1 = Some (zeros (sources_n self * dc)
                                   (n_predictor_variables data * ncols (basis data)))
              \<and> n_iter self1 = n_iter self))
   \<and> (\<forall>ext (data :: 'k REG_Data) kw pen n self.
         fit_loop ext data tol kw pen (Suc n) (self, zeros r c) =
           bind_err (if kw = no_kwargs then construct_f self data else Inl TypeError)
             (\<lambda>(fun1, grad1).
           bind_err (case pen of None \<Rightarrow> Inl NameError | Some p \<Rightarrow> Inr p)
             (\<lambda>(g_funct, prox_g).
           bind_err (Fasta_learn ext fun1 g_funct grad1 prox_g (n_iterf self) (zeros r c))
             (\<lambda>coefs.
           bind_err (residual (zeros r c) coefs) (\<lambda>v.
           bind_err (DstRF_solve ext (self \<lparr> err := err self @ [v], theta := Some coefs \<rparr>)
                       data coefs kw)
             (\<lambda>self1. fit_loop ext data tol kw pen n (self1, coefs)))))))"
proof (intro conjI allI impI)
  fix th1 v assume "residual (zeros r c) th1 = Inr v"
  then show "v = PInf \<or> v = NaN" "\<not> float_less v tol"
    using residual_zero_not_less by blast+
next
  fix th1 assume "is_mat r c th1"
  then show "residual (zeros r c) th1 = Inr (if th1 = zeros r c then NaN else PInf)"
    by (rule residual_zero_start)
next
  fix self :: "'k DstRF" and mu1 data self1 data1
  assume "set_mu self mu1 data = Inr (self1, data1)"
  then show "\<exists>dc. theta self1 = Some (zeros (sources_n self * dc)
                                   (n_predictor_variables data * ncols (basis data)))
              \<and> n_iter self1 = n_iter self"
    using set_mu_zero_theta by blast
next
  fix ext and data :: "'k REG_Data" and kw pen n self
  show "fit_loop ext data tol kw pen (Suc n) (self, zeros r c) =
           bind_err (if kw = no_kwargs then construct_f self data else Inl TypeError)
             (\<lambda>(fun1, grad1).
           bind_err (case pen of None \<Rightarrow> Inl NameError | Some p \<Rightarrow> Inr p)
             (\<lambda>(g_funct, prox_g).
           bind_err (Fasta_learn ext fun1 g_funct grad1 prox_g (n_iterf self) (zeros r c))
             (\<lambda>coefs.
           bind_err (residual (zeros r c) coefs) (\<lambda>v.
           bind_err (DstRF_solve ext (self \<lparr> err := err self @ [v], theta := Some coefs \<rparr>)
                       data coefs kw)
             (\<lambda>self1. fit_loop ext data tol kw pen n (self1, coefs))))))"
    by (rule fit_loop_from_zero)
qed

theorem fit_first_iteration_never_stops_witness:
  "residual (zeros 1 1) [[1]] = Inr PInf \<and> \<not> float_less PInf (1 / 10000)
   \<and> set_mu (ex_model [[9]]) 1 ex_data
       = Inr (ex_model [[0]],
              ex_data \<lparr> bbt := Some [[[25]]], bE := Some [[[11]]], EtE := Some [[[5]]] \<rparr>)
   \<and> fit ex_ext (ex_model [[9]]) ex_data 1 (1 / 10000) no_kwargs
       = Inr ((ex_model [[0]]) \<lparr> err := [NaN], Gamma := [''a'' \<mapsto> [[[5]]]],
                                 Sigma_b := [''a'' \<mapsto> [[7]]] \<rparr>)"
proof -
  note t = fit_first_iteration_never_stops [of 1 1 "1 / 10000", THEN conjunct2, THEN conjunct1,
      rule_format, of "[[1]]"]
  have "is_mat 1 1 [[1]]" "[[1]] \<noteq> zeros 1 1" by (simp_all add: is_mat_def zeros_def)
  then have "residual (zeros 1 1) [[1]] = Inr PInf" using t by simp
  then show ?thesis using ex_set_mu ex_fit by simp
qed

section \<open>The objective and its gradient\<close>

text \<open>
  C1.  For a model and a data container with the same non-empty list of trials, a lead field
  of \<open>K\<close> sensors and \<open>N\<close> columns, and valid trials of \<open>K\<close> sensors and \<open>F\<close> covariate columns
  (each with a \<open>Sigma_b\<close> that has a Cholesky factor), \<^verbatim>\<open>_precompute\<close> and \<^verbatim>\<open>_construct_f\<close>
  succeed, and at every coefficient matrix \<open>th\<close> of \<open>N \<times> F\<close> entries the objective closure
  returns the value of the explicit computation, the sum over the trials of half the squared
  Frobenius norm of the whitened residual, and the gradient closure returns a matrix \<open>Gm\<close>
  that is the gradient of the explicit objective at \<open>th\<close>: along every direction \<open>D\<close> the
  explicit objective is defined on the whole line \<open>th + t D\<close> and its derivative at \<open>t = 0\<close>
  is the inner product of \<open>Gm\<close> with \<open>D\<close>, with this sign.
\<close>

theorem construct_f_matches_explicit:
  fixes self :: "'k DstRF" and data :: "'k REG_Data"
  assumes pos: "0 < K" "0 < N" "0 < F"
    and G: "is_mat K N (lead_field self)"
    and keys: "keys self = datakeys data" and ne: "datakeys data \<noteq> []"
    and valid: "\<forall>key\<in>set (datakeys data). valid_trial K F self data key"
    and th: "is_mat N F th" and D: "is_mat N F D"
  shows "\<exists>data1 f1 gf v Gm.
       precompute data = Inr data1 \<and> construct_f self data1 = Inr (f1, gf)
     \<and> f1 th = Inr v \<and> explicit_objective self data th = Inr v
     \<and> gf th = Inr Gm \<and> is_mat N F Gm
     \<and> (\<forall>t. \<exists>u. explicit_objective self data (line_point th D t) = Inr u)
     \<and> ((\<lambda>t. projr (explicit_objective self data (line_point th D t)))
          has_real_derivative inner_mat Gm D) (at 0)"
proof -
  let ?ks = "datakeys data" and ?G = "lead_field self"
  have "\<forall>key\<in>set ?ks. \<exists>b E L T. trial_facts K F self data key b E L T"
  proof
    fix key assume "key \<in> set ?ks"
    with valid have "valid_trial K F self data key" by simp
    then show "\<exists>b E L T. trial_facts K F self data key b E L T"
      using pos(1) by (rule valid_trial_facts)
  qed
  then obtain bf Ef Lf Tf where
    tf: "\<And>key. key \<in> set ?ks \<Longrightarrow> trial_facts K F self data key (bf key) (Ef key) (Lf key) (Tf key)"
    by metis
  define data1 where
    "data1 = data \<lparr> bbt := Some (map (\<lambda>key. dot (bf key) (transpose_m (bf key))) (datakeys data)),
                    bE := Some (map (\<lambda>key. dot (bf key) (Ef key)) (datakeys data)),
                    EtE := Some (map (\<lambda>key. dot (transpose_m (Ef key)) (Ef key)) (datakeys data)) \<rparr>"
  note c = construct_f_cached [OF tf keys G pos(1,3) data1_def]
  define a where "a i j = th ! i ! j" for i j
  define d where "d i j = D ! i ! j" for i j
  have th_mk: "th = mk_mat N F a" and D_mk: "D = mk_mat N F d"
    using mk_mat_eq [OF th] mk_mat_eq [OF D] by (simp_all add: a_def [abs_def] d_def [abs_def])
  define tv where "tv key = trial_value K N F (Tf key) ?G (bf key) (Ef key) (Lf key)" for key
  define gq where "gq key = trial_grad K N F (Tf key) ?G (bf key) (Ef key) (Lf key) a" for key
  define cv where "cv key = trial_curv K N F (Tf key) ?G (Ef key) (Lf key) d" for key
  define Gm where "Gm = mk_mat N F (\<lambda>i j. sum_list (map (\<lambda>key. gq key i j) ?ks))"
  have ex: "explicit_objective self data (mk_mat N F x) = Inr (sum_list (map (\<lambda>key. tv key x) ?ks))"
    for x
    unfolding tv_def by (rule explicit_value [OF tf G pos])
  define f1 where
    "f1 = funct (map (\<lambda>key. mk_mat K N (white (Lf key) (lead_field self))) (datakeys data))
                (map (\<lambda>key. frob K (Tf key) (white (Lf key) (bf key)) (white (Lf key) (bf key)))
                   (datakeys data))
                (map (\<lambda>key. mk_mat K F (fdot (Tf key) (white (Lf key) (bf key))
                                           (\<lambda>i j. Ef key ! i ! j))) (datakeys data))
                (Some (map (\<lambda>key. dot (transpose_m (Ef key)) (Ef key)) (datakeys data)))
                (length (datakeys data))"
  define gf where
    "gf = grad_funct (map (\<lambda>key. mk_mat K N (white (Lf key) (lead_field self))) (datakeys data))
                (map (\<lambda>key. mk_mat K F (fdot (Tf key) (white (Lf key) (bf key))
                                           (\<lambda>i j. Ef key ! i ! j))) (datakeys data))
                (Some (map (\<lambda>key. dot (transpose_m (Ef key)) (Ef key)) (datakeys data)))
                (length (datakeys data))"
  have p: "construct_f self data1 = Inr (f1, gf)"
    unfolding f1_def gf_def by (rule c(2))
  have f: "f1 th = Inr (sum_list (map (\<lambda>key. tv key a) ?ks))"
    unfolding f1_def th_mk tv_def by (rule funct_value [OF tf pos])
  have g: "gf th = Inr Gm"
    unfolding gf_def th_mk Gm_def gq_def by (rule grad_funct_value [OF tf pos ne])
  have line: "line_point th D t = mk_mat N F (\<lambda>i j. a i j + t * d i j)" for t
    unfolding th_mk D_mk by (rule line_point_mkmk [OF pos(2)])
  have val: "sum_list (map (\<lambda>key. tv key (\<lambda>i j. a i j + t * d i j)) ?ks)
           = sum_list (map (\<lambda>key. tv key a) ?ks)
             + t * sum_list (map (\<lambda>key. frob N F (gq key) d) ?ks)
             + t * t * sum_list (map cv ?ks)" for t
    unfolding tv_def gq_def cv_def trial_value_line by (rule sum_list_quadratic)
  have inner: "inner_mat Gm D = sum_list (map (\<lambda>key. frob N F (gq key) d) ?ks)"
    unfolding Gm_def D_mk by (simp add: inner_mat_mkmk [OF pos(2)] frob_sum_list_left)
  have der: "((\<lambda>t. projr (explicit_objective self data (line_point th D t)))
          has_real_derivative inner_mat Gm D) (at 0)"
    unfolding line ex val inner by (simp add: quadratic_derivative)
  have "precompute data = Inr data1" by (rule c(1))
  moreover have "explicit_objective self data th = Inr (sum_list (map (\<lambda>key. tv key a) ?ks))"
    unfolding th_mk by (rule ex)
  moreover have "is_mat N F Gm" by (simp add: Gm_def)
  moreover have "\<forall>t. \<exists>u. explicit_objective self data (line_point th D t) = Inr u"
    by (simp add: line ex)
  ultimately show ?thesis using p f g der by blast
qed

theorem construct_f_matches_explicit_witness:
  "\<exists>data1 f1 gf v Gm.
       precompute ex_data = Inr data1 \<and> construct_f (ex_model [[0]]) data1 = Inr (f1, gf)
     \<and> f1 [[1]] = Inr v \<and> explicit_objective (ex_model [[0]]) ex_data [[1]] = Inr v
     \<and> gf [[1]] = Inr Gm \<and> is_mat 1 1 Gm
     \<and> (\<forall>t. \<exists>u. explicit_objective (ex_model [[0]]) ex_data (line_point [[1]] [[1]] t) = Inr u)
     \<and> ((\<lambda>t. projr (explicit_objective (ex_model [[0]]) ex_data (line_point [[1]] [[1]] t)))
          has_real_derivative inner_mat Gm [[1]]) (at 0)"
  using construct_f_matches_explicit [of 1 1 1 "ex_model [[0]]" ex_data "[[1]]" "[[1]]"]
  by (simp add: valid_trial_def ex_model_def ex_data_def is_mat_def cholesky_def nrows_def ncols_def)


section \<open>The source covariance update\<close>



end
